theory Spec2Isabelle
  imports Main "HOL-Library.Word"
begin

unbundle bit_operations_syntax

section \<open>Machine types and library functions used by the reader\<close>

type_synonym u32 = "32 word"
type_synonym u64 = "64 word"
type_synonym i8 = "8 word"

text \<open>
  \<^verbatim>\<open>std::to_string\<close> on an unsigned value: its decimal digits, most significant first.
\<close>

definition digit_char :: "nat \<Rightarrow> char" where
  "digit_char d = ''0123456789'' ! d"

fun to_string :: "nat \<Rightarrow> string" where
  "to_string n = (if n < 10 then [digit_char n] else to_string (n div 10) @ [digit_char (n mod 10)])"

declare to_string.simps [simp del]

text \<open>
  How a call of the reader can end other than by returning.
  \<^item> \<open>AssertionFailed\<close>: an \<^verbatim>\<open>assert\<close> of the source fails in a build that keeps
    assertions; the process aborts.
  \<^item> \<open>OutOfBoundsRead\<close>: \<^verbatim>\<open>signals[i]\<close> with \<open>i\<close> not below \<^verbatim>\<open>signals.size()\<close>;
    \<^verbatim>\<open>std::vector::operator[]\<close> makes no check, the behaviour is undefined and the model
    stops there.
  \<^item> \<open>OutOfRange\<close>: the \<^verbatim>\<open>std::out_of_range\<close> exception of \<^verbatim>\<open>unordered_map::at\<close>.
  \<^item> \<open>MalformedStream\<close>: the decode error that the specification names. No function of
    the source produces it; it is declared so that statements about it can be written.
\<close>

datatype error = AssertionFailed | OutOfBoundsRead | OutOfRange | MalformedStream

definition at_index :: "'a list \<Rightarrow> nat \<Rightarrow> error + 'a" where
  "at_index xs i = (if i < length xs then Inr (xs ! i) else Inl OutOfBoundsRead)"

section \<open>NameMap\<close>

text \<open>
  The two \<^verbatim>\<open>std::unordered_map\<close> members \<^verbatim>\<open>_names\<close> and \<^verbatim>\<open>_rev_names\<close>, and the text
  that \<^verbatim>\<open>insert\<close> writes to \<^verbatim>\<open>std::cout\<close> (one entry per line written).
\<close>

record 's NameMap =
  names :: "'s \<rightharpoonup> string list"
  rev_names :: "string \<rightharpoonup> 's"
  cout :: "string list"

definition NameMap_empty :: "'s NameMap" where
  "NameMap_empty = \<lparr>names = Map.empty, rev_names = Map.empty, cout = []\<rparr>"

text \<open>
  \<^verbatim>\<open>NameMap::insert\<close>. The direct map gets the name appended to the signal's vector (a new
  vector when the signal has none). The reverse map is written with
  \<^verbatim>\<open>unordered_map::insert\<close>, which adds the pair only when the key is absent and leaves
  an existing entry as it is.
\<close>

definition NameMap_insert :: "'s \<Rightarrow> string \<Rightarrow> 's NameMap \<Rightarrow> 's NameMap" where
  "NameMap_insert s name nm =
     (let names' = (case names nm s of
                      None \<Rightarrow> (names nm)(s \<mapsto> [name])
                    | Some v \<Rightarrow> (names nm)(s \<mapsto> v @ [name]));
          cout' = (case rev_names nm name of
                     Some _ \<Rightarrow> cout nm @ [''[w] signal name `'' @ name @ ''` is used twice'']
                   | None \<Rightarrow> cout nm);
          rev_names' = (case rev_names nm name of
                          None \<Rightarrow> (rev_names nm)(name \<mapsto> s)
                        | Some _ \<Rightarrow> rev_names nm)
      in \<lparr>names = names', rev_names = rev_names', cout = cout'\<rparr>)"

text \<open>\<^verbatim>\<open>NameMap::get_name\<close>: \<^verbatim>\<open>_names.at( s )\<close> throws when the signal has no entry.\<close>

definition get_name :: "'s NameMap \<Rightarrow> 's \<Rightarrow> error + string list" where
  "get_name nm s = (case names nm s of None \<Rightarrow> Inl OutOfRange | Some v \<Rightarrow> Inr v)"

definition NameMap_has_name :: "'s NameMap \<Rightarrow> 's \<Rightarrow> string \<Rightarrow> bool" where
  "NameMap_has_name nm s name =
     (case names nm s of None \<Rightarrow> False | Some v \<Rightarrow> name \<in> set v)"

definition get_name_to_signal_mapping :: "'s NameMap \<Rightarrow> (string \<rightharpoonup> 's)" where
  "get_name_to_signal_mapping nm = rev_names nm"

text \<open>A sequence of \<^verbatim>\<open>insert\<close> calls, first call first.\<close>

fun NameMap_inserts :: "('s \<times> string) list \<Rightarrow> 's NameMap \<Rightarrow> 's NameMap" where
  "NameMap_inserts [] nm = nm"
| "NameMap_inserts ((s, name) # cs) nm = NameMap_inserts cs (NameMap_insert s name nm)"

section \<open>The target network\<close>

text \<open>
  The template parameter \<^verbatim>\<open>Ntk\<close>: the member functions the reader calls, as functions on
  a network state \<open>'g\<close> with signals \<open>'s\<close>, and the two compile-time traits
  \<^verbatim>\<open>has_set_name_v\<close> and \<^verbatim>\<open>has_set_output_name_v\<close> that the reader tests with
  \<^verbatim>\<open>if constexpr\<close>. A function that may add nodes returns the new state with its signal.
\<close>

record ('g, 's) Ntk =
  get_constant :: "'g \<Rightarrow> bool \<Rightarrow> 's"
  create_pi :: "'g \<Rightarrow> 's \<times> 'g"
  create_ro :: "'g \<Rightarrow> 's \<times> 'g"
  create_po :: "'g \<Rightarrow> 's \<Rightarrow> 'g"
  create_ri :: "'g \<Rightarrow> 's \<Rightarrow> i8 \<Rightarrow> 'g"
  create_not :: "'g \<Rightarrow> 's \<Rightarrow> 's \<times> 'g"
  create_and :: "'g \<Rightarrow> 's \<Rightarrow> 's \<Rightarrow> 's \<times> 'g"
  has_set_name_v :: bool
  has_name :: "'g \<Rightarrow> 's \<Rightarrow> bool"
  set_name :: "'g \<Rightarrow> 's \<Rightarrow> string \<Rightarrow> 'g"
  has_set_output_name_v :: bool
  has_output_name :: "'g \<Rightarrow> u32 \<Rightarrow> bool"
  set_output_name :: "'g \<Rightarrow> u32 \<Rightarrow> string \<Rightarrow> 'g"

section \<open>aiger_reader\<close>

text \<open>
  The reader's members. \<open>ntk\<close> is the network behind the reference \<^verbatim>\<open>_ntk\<close>;
  \<open>names_ptr\<close> is the pointer \<^verbatim>\<open>_names\<close> with the object it points to
  (\<open>None\<close> for \<^verbatim>\<open>nullptr\<close>).
\<close>

record ('g, 's) aiger_reader =
  ntk :: 'g
  names_ptr :: "'s NameMap option"
  num_inputs :: u32
  outputs :: "(u32 \<times> string) list"
  signals :: "'s list"
  latches :: "(u32 \<times> i8 \<times> string) list"

definition new_reader :: "'g \<Rightarrow> 's NameMap option \<Rightarrow> ('g, 's) aiger_reader" where
  "new_reader g nm =
     \<lparr>ntk = g, names_ptr = nm, num_inputs = 0, outputs = [], signals = [], latches = []\<rparr>"

datatype latch_init_value = ZERO | ONE | NONDETERMINISTIC

text \<open>
  The literal decoding that \<^verbatim>\<open>on_and\<close> and the destructor repeat:
  \<^verbatim>\<open>auto s = signals[lit >> 1]; if ( lit & 1 ) s = _ntk.create_not( s );\<close>
\<close>

definition resolve :: "('g, 's) Ntk \<Rightarrow> 's list \<Rightarrow> 'g \<Rightarrow> u32 \<Rightarrow> error + ('s \<times> 'g)" where
  "resolve N sigs g lit =
     (case at_index sigs (unat (drop_bit 1 lit)) of
        Inl e \<Rightarrow> Inl e
      | Inr s \<Rightarrow> if lit AND 1 \<noteq> 0 then Inr (create_not N g s) else Inr (s, g))"

subsection \<open>on_header\<close>

text \<open>The body of the first loop of \<^verbatim>\<open>on_header\<close>, at counter \<open>i\<close>.\<close>

definition pi_body :: "('g, 's) Ntk \<Rightarrow> u32 \<Rightarrow> ('g, 's) aiger_reader \<Rightarrow> ('g, 's) aiger_reader" where
  "pi_body N i r =
     (let (s, g1) = create_pi N (ntk r);
          sigs = signals r @ [s];
          g2 = (if has_set_name_v N
                then (if \<not> has_name N g1 (last sigs)
                      then set_name N g1 (last sigs) (''pi'' @ to_string (unat i))
                      else g1)
                else g1)
      in r\<lparr>ntk := g2, signals := sigs\<rparr>)"

definition ro_body :: "('g, 's) Ntk \<Rightarrow> ('g, 's) aiger_reader \<Rightarrow> ('g, 's) aiger_reader" where
  "ro_body N r = (let (s, g1) = create_ro N (ntk r) in r\<lparr>ntk := g1, signals := signals r @ [s]\<rparr>)"

text \<open>
  \<^verbatim>\<open>for ( auto i = 0u; i < num_inputs; ++i )\<close>: the counter is an \<^verbatim>\<open>unsigned\<close>, the bound
  a \<^verbatim>\<open>uint64_t\<close>; the comparison is made at 64 bits and the increment wraps at 32 bits.
  \<open>None\<close> is a loop that does not end.
\<close>

partial_function (option) pi_loop ::
  "('g, 's) Ntk \<Rightarrow> u64 \<Rightarrow> u32 \<Rightarrow> ('g, 's) aiger_reader \<Rightarrow> ('g, 's) aiger_reader option" where
  "pi_loop N n_inputs i r =
     (if (ucast i :: u64) < n_inputs then pi_loop N n_inputs (i + 1) (pi_body N i r)
      else Some r)"

partial_function (option) ro_loop ::
  "('g, 's) Ntk \<Rightarrow> u64 \<Rightarrow> u32 \<Rightarrow> ('g, 's) aiger_reader \<Rightarrow> ('g, 's) aiger_reader option" where
  "ro_loop N n_latches i r =
     (if (ucast i :: u64) < n_latches then ro_loop N n_latches (i + 1) (ro_body N r)
      else Some r)"

definition on_header ::
  "('g, 's) Ntk \<Rightarrow> u64 \<Rightarrow> u64 \<Rightarrow> u64 \<Rightarrow> u64 \<Rightarrow> u64 \<Rightarrow> ('g, 's) aiger_reader
     \<Rightarrow> ('g, 's) aiger_reader option" where
  "on_header N m n_inputs n_latches n_outputs n_ands r =
     (let r1 = r\<lparr>num_inputs := ucast n_inputs\<rparr>;
          r2 = r1\<lparr>signals := signals r1 @ [get_constant N (ntk r1) False]\<rparr>
      in case pi_loop N n_inputs 0 r2 of
           None \<Rightarrow> None
         | Some r3 \<Rightarrow> ro_loop N n_latches 0 r3)"

subsection \<open>Name events\<close>

definition on_input_name ::
  "('g, 's) Ntk \<Rightarrow> u32 \<Rightarrow> string \<Rightarrow> ('g, 's) aiger_reader \<Rightarrow> error + ('g, 's) aiger_reader" where
  "on_input_name N index name r =
     (if has_set_name_v N
      then (case at_index (signals r) (unat (1 + index)) of
              Inl e \<Rightarrow> Inl e
            | Inr s \<Rightarrow> Inr (r\<lparr>ntk := set_name N (ntk r) s name\<rparr>))
      else Inr r)"

definition on_output_name ::
  "('g, 's) Ntk \<Rightarrow> u32 \<Rightarrow> string \<Rightarrow> ('g, 's) aiger_reader \<Rightarrow> error + ('g, 's) aiger_reader" where
  "on_output_name N index name r =
     (if has_set_output_name_v N
      then Inr (r\<lparr>ntk := set_output_name N (ntk r) index name\<rparr>)
      else Inr r)"

definition on_latch_name ::
  "('g, 's) Ntk \<Rightarrow> u32 \<Rightarrow> string \<Rightarrow> ('g, 's) aiger_reader \<Rightarrow> error + ('g, 's) aiger_reader" where
  "on_latch_name N index name r =
     (if has_set_name_v N
      then (case at_index (signals r) (unat (1 + num_inputs r + index)) of
              Inl e \<Rightarrow> Inl e
            | Inr s \<Rightarrow> Inr (r\<lparr>ntk := set_name N (ntk r) s name\<rparr>))
      else Inr r)"

subsection \<open>Structural events\<close>

text \<open>
  \<open>ndebug\<close> says whether the translation unit is compiled with \<^verbatim>\<open>NDEBUG\<close>, which
  removes every \<^verbatim>\<open>assert\<close>. The comparison \<^verbatim>\<open>signals.size() == index\<close> is made at the
  width of \<^verbatim>\<open>size_t\<close>.
\<close>

definition on_and ::
  "bool \<Rightarrow> ('g, 's) Ntk \<Rightarrow> u32 \<Rightarrow> u32 \<Rightarrow> u32 \<Rightarrow> ('g, 's) aiger_reader
     \<Rightarrow> error + ('g, 's) aiger_reader" where
  "on_and ndebug N index left_lit right_lit r =
     (if \<not> ndebug \<and> length (signals r) \<noteq> unat index then Inl AssertionFailed
      else case resolve N (signals r) (ntk r) left_lit of
             Inl e \<Rightarrow> Inl e
           | Inr (left, g1) \<Rightarrow>
               (case resolve N (signals r) g1 right_lit of
                  Inl e \<Rightarrow> Inl e
                | Inr (right, g2) \<Rightarrow>
                    (let (s, g3) = create_and N g2 left right
                     in Inr (r\<lparr>ntk := g3, signals := signals r @ [s]\<rparr>))))"

definition reset_value :: "latch_init_value \<Rightarrow> i8" where
  "reset_value reset =
     (if reset = NONDETERMINISTIC then - 1 else (if reset = ONE then 1 else 0))"

definition on_latch ::
  "u32 \<Rightarrow> u32 \<Rightarrow> latch_init_value \<Rightarrow> ('g, 's) aiger_reader \<Rightarrow> ('g, 's) aiger_reader" where
  "on_latch index next reset r =
     (let r8 = reset_value reset in r\<lparr>latches := latches r @ [(next, r8, '''')]\<rparr>)"

definition on_output ::
  "bool \<Rightarrow> u32 \<Rightarrow> u32 \<Rightarrow> ('g, 's) aiger_reader \<Rightarrow> error + ('g, 's) aiger_reader" where
  "on_output ndebug index lit r =
     (if \<not> ndebug \<and> unat index \<noteq> length (outputs r) then Inl AssertionFailed
      else Inr (r\<lparr>outputs := outputs r @ [(lit, '''')]\<rparr>))"

subsection \<open>The destructor\<close>

text \<open>
  The two loops of \<^verbatim>\<open>~aiger_reader\<close>. The loop state is the network, the name map behind
  \<^verbatim>\<open>_names\<close> and the local counters (\<^verbatim>\<open>output_idx\<close>, then \<^verbatim>\<open>latch_idx\<close> as well).
\<close>

fun po_loop ::
  "('g, 's) Ntk \<Rightarrow> 's list \<Rightarrow> (u32 \<times> string) list \<Rightarrow> 'g \<times> 's NameMap option \<times> u32
     \<Rightarrow> error + ('g \<times> 's NameMap option \<times> u32)" where
  "po_loop N sigs [] st = Inr st"
| "po_loop N sigs (out # outs) (g, nm, output_idx) =
     (case resolve N sigs g (fst out) of
        Inl e \<Rightarrow> Inl e
      | Inr (signal, g1) \<Rightarrow>
          (let nm1 = map_option (NameMap_insert signal (snd out)) nm;
               g2 = create_po N g1 signal;
               g3 = (if has_set_output_name_v N
                     then (if \<not> has_output_name N g2 output_idx
                           then set_output_name N g2 output_idx
                                  (''po'' @ to_string (unat output_idx))
                           else g2)
                     else g2)
           in po_loop N sigs outs (g3, nm1, output_idx + 1)))"

fun ri_loop ::
  "('g, 's) Ntk \<Rightarrow> 's list \<Rightarrow> (u32 \<times> i8 \<times> string) list \<Rightarrow> 'g \<times> 's NameMap option \<times> u32 \<times> u32
     \<Rightarrow> error + ('g \<times> 's NameMap option \<times> u32 \<times> u32)" where
  "ri_loop N sigs [] st = Inr st"
| "ri_loop N sigs (latch # ls) (g, nm, output_idx, latch_idx) =
     (let lit = fst latch; reset = fst (snd latch)
      in case resolve N sigs g lit of
           Inl e \<Rightarrow> Inl e
         | Inr (signal, g1) \<Rightarrow>
             (let nm1 = map_option (NameMap_insert signal (snd (snd latch) @ ''_next'')) nm;
                  g2 = create_ri N g1 signal reset;
                  g3 = (if has_set_output_name_v N
                        then (if \<not> has_output_name N g2 output_idx
                              then set_output_name N g2 output_idx
                                     (''li'' @ to_string (unat latch_idx))
                              else g2)
                        else g2)
              in ri_loop N sigs ls (g3, nm1, output_idx + 1, latch_idx + 1)))"

text \<open>
  \<^verbatim>\<open>~aiger_reader\<close>. The reader is gone afterwards; what is left is the network and the
  name map.
\<close>

definition destructor ::
  "('g, 's) Ntk \<Rightarrow> ('g, 's) aiger_reader \<Rightarrow> error + ('g \<times> 's NameMap option)" where
  "destructor N r =
     (case po_loop N (signals r) (outputs r) (ntk r, names_ptr r, 0) of
        Inl e \<Rightarrow> Inl e
      | Inr (g1, nm1, output_idx) \<Rightarrow>
          (case ri_loop N (signals r) (latches r) (g1, nm1, output_idx, 1) of
             Inl e \<Rightarrow> Inl e
           | Inr (g2, nm2, _, _) \<Rightarrow> Inr (g2, nm2)))"

section \<open>The event source\<close>

text \<open>
  Modelled from the spec: the event source (the parser that calls the reader is not among
  the sources). Section 6 of the specification lists its events; it calls the handlers in
  stream order, and the reader is destroyed once after the last event. A call that aborts
  or leaves defined behaviour ends the run, and a call that does not return leaves the
  run without a result (\<open>None\<close>).
\<close>

datatype event =
    Header u64 u64 u64 u64 u64
  | Input_name u32 string
  | Output_name u32 string
  | Latch_name u32 string
  | And_gate u32 u32 u32
  | Latch u32 u32 latch_init_value
  | Output u32 u32

fun dispatch ::
  "bool \<Rightarrow> ('g, 's) Ntk \<Rightarrow> event \<Rightarrow> ('g, 's) aiger_reader
     \<Rightarrow> (error + ('g, 's) aiger_reader) option" where
  "dispatch ndebug N (Header m i l o0 a) r = map_option Inr (on_header N m i l o0 a r)"
| "dispatch ndebug N (Input_name index name) r = Some (on_input_name N index name r)"
| "dispatch ndebug N (Output_name index name) r = Some (on_output_name N index name r)"
| "dispatch ndebug N (Latch_name index name) r = Some (on_latch_name N index name r)"
| "dispatch ndebug N (And_gate index left_lit right_lit) r =
     Some (on_and ndebug N index left_lit right_lit r)"
| "dispatch ndebug N (Latch index next reset) r = Some (Inr (on_latch index next reset r))"
| "dispatch ndebug N (Output index lit) r = Some (on_output ndebug index lit r)"

fun run_events ::
  "bool \<Rightarrow> ('g, 's) Ntk \<Rightarrow> event list \<Rightarrow> ('g, 's) aiger_reader
     \<Rightarrow> (error + ('g, 's) aiger_reader) option" where
  "run_events ndebug N [] r = Some (Inr r)"
| "run_events ndebug N (e # es) r =
     (case dispatch ndebug N e r of
        None \<Rightarrow> None
      | Some (Inl err) \<Rightarrow> Some (Inl err)
      | Some (Inr r1) \<Rightarrow> run_events ndebug N es r1)"

definition read_aiger ::
  "bool \<Rightarrow> ('g, 's) Ntk \<Rightarrow> event list \<Rightarrow> 'g \<Rightarrow> 's NameMap option
     \<Rightarrow> (error + ('g \<times> 's NameMap option)) option" where
  "read_aiger ndebug N es g nm =
     (case run_events ndebug N es (new_reader g nm) of
        None \<Rightarrow> None
      | Some (Inl err) \<Rightarrow> Some (Inl err)
      | Some (Inr r) \<Rightarrow> Some (destructor N r))"

section \<open>A target network\<close>

text \<open>
  Modelled from the spec: a target graph (the network classes that instantiate \<^verbatim>\<open>Ntk\<close>
  are not among the sources). It offers the capabilities of section 6 of the
  specification and nothing more: a signal is a node index with a complement flag,
  negation flips the flag, every creating call appends one node or one combinational
  output, and names are kept per signal and per output position. Primary outputs and
  register inputs share one list, in the order of their creation. The two flags say
  whether the network offers signal names and output names.
\<close>

type_synonym aig_signal = "nat \<times> bool"

datatype aig_node = Node_const | Node_pi | Node_ro | Node_and aig_signal aig_signal

datatype aig_co = PO aig_signal | RI aig_signal i8

record aig =
  nodes :: "aig_node list"
  cos :: "aig_co list"
  signal_names :: "aig_signal \<rightharpoonup> string"
  output_names :: "u32 \<rightharpoonup> string"

definition aig_empty :: aig where
  "aig_empty = \<lparr>nodes = [Node_const], cos = [], signal_names = Map.empty, output_names = Map.empty\<rparr>"

definition aig_new_node :: "aig_node \<Rightarrow> aig \<Rightarrow> aig_signal \<times> aig" where
  "aig_new_node nd g = ((length (nodes g), False), g\<lparr>nodes := nodes g @ [nd]\<rparr>)"

definition aig_ntk :: "bool \<Rightarrow> bool \<Rightarrow> (aig, aig_signal) Ntk" where
  "aig_ntk with_names with_output_names =
     \<lparr>get_constant = (\<lambda>g v. (0, v)),
      create_pi = aig_new_node Node_pi,
      create_ro = aig_new_node Node_ro,
      create_po = (\<lambda>g s. g\<lparr>cos := cos g @ [PO s]\<rparr>),
      create_ri = (\<lambda>g s reset. g\<lparr>cos := cos g @ [RI s reset]\<rparr>),
      create_not = (\<lambda>g s. ((fst s, \<not> snd s), g)),
      create_and = (\<lambda>g a b. aig_new_node (Node_and a b) g),
      has_set_name_v = with_names,
      has_name = (\<lambda>g s. signal_names g s \<noteq> None),
      set_name = (\<lambda>g s name. g\<lparr>signal_names := (signal_names g)(s \<mapsto> name)\<rparr>),
      has_set_output_name_v = with_output_names,
      has_output_name = (\<lambda>g index. output_names g index \<noteq> None),
      set_output_name = (\<lambda>g index name. g\<lparr>output_names := (output_names g)(index \<mapsto> name)\<rparr>)\<rparr>"

text \<open>The signal that a literal denotes in this network, given the signal table.\<close>

definition aig_lit :: "aig_signal list \<Rightarrow> u32 \<Rightarrow> aig_signal" where
  "aig_lit sigs lit =
     (let s = sigs ! unat (drop_bit 1 lit) in if lit AND 1 \<noteq> 0 then (fst s, \<not> snd s) else s)"

text \<open>A literal refers to an entry of the signal table.\<close>

definition lit_in_table :: "'s list \<Rightarrow> u32 \<Rightarrow> bool" where
  "lit_in_table sigs lit = (unat (drop_bit 1 lit) < length sigs)"

section \<open>Notions used to state the properties\<close>

text \<open>
  The literals of the output events of a stream and the next-state literals and reset
  values of its latch events, each in stream order.
\<close>

fun declared_outputs :: "event list \<Rightarrow> u32 list" where
  "declared_outputs [] = []"
| "declared_outputs (Output index lit # es) = lit # declared_outputs es"
| "declared_outputs (e # es) = declared_outputs es"

fun declared_latches :: "event list \<Rightarrow> (u32 \<times> latch_init_value) list" where
  "declared_latches [] = []"
| "declared_latches (Latch index next reset # es) = (next, reset) # declared_latches es"
| "declared_latches (e # es) = declared_latches es"

text \<open>
  The default names that the destructor offers to \<open>n\<close> consecutive output positions
  from \<open>idx\<close> on, numbered from \<open>cnt\<close> on: position \<open>idx + j\<close> is offered the prefix
  followed by the decimal digits of \<open>cnt + j\<close>, both counted at 32 bits.
\<close>

definition default_names :: "string \<Rightarrow> u32 \<Rightarrow> u32 \<Rightarrow> nat \<Rightarrow> (u32 \<times> string) list" where
  "default_names pre idx cnt n =
     map (\<lambda>j. (idx + of_nat j, pre @ to_string (unat (cnt + of_nat j)))) [0..<n]"

section \<open>Properties of NameMap\<close>

lemma names_insert:
  "names (NameMap_insert s n nm) t =
     (if t = s then Some ((case names nm s of None \<Rightarrow> [] | Some v \<Rightarrow> v) @ [n]) else names nm t)"
  by (simp add: NameMap_insert_def Let_def split: option.splits)

lemma rev_names_insert:
  "rev_names (NameMap_insert s n nm) k =
     (case rev_names nm k of Some t \<Rightarrow> Some t | None \<Rightarrow> if k = n then Some s else None)"
  by (simp add: NameMap_insert_def Let_def split: option.splits)

lemma names_inserts:
  "names (NameMap_inserts cs nm) t =
     (let new = map snd (filter (\<lambda>c. fst c = t) cs)
      in if new = [] then names nm t
         else Some ((case names nm t of None \<Rightarrow> [] | Some v \<Rightarrow> v) @ new))"
proof (induction cs arbitrary: nm)
  case Nil
  show ?case by simp
next
  case (Cons c cs)
  obtain s n where c: "c = (s, n)" by (cases c)
  show ?case
    by (simp add: c Cons.IH names_insert Let_def)
qed

lemma rev_names_inserts:
  "rev_names (NameMap_inserts cs nm) k =
     (case rev_names nm k of
        Some t \<Rightarrow> Some t
      | None \<Rightarrow> map_of (map (\<lambda>c. (snd c, fst c)) cs) k)"
proof (induction cs arbitrary: nm)
  case Nil
  show ?case by (simp split: option.splits)
next
  case (Cons c cs)
  obtain s n where c: "c = (s, n)" by (cases c)
  show ?case
    by (simp add: c Cons.IH rev_names_insert split: option.splits)
qed

lemma NameMap_inserts_append:
  "NameMap_inserts (xs @ ys) nm = NameMap_inserts ys (NameMap_inserts xs nm)"
  by (induction xs arbitrary: nm) auto

lemma map_option_inserts:
  "map_option (NameMap_inserts cs) (map_option (NameMap_insert s n) nm)
     = map_option (NameMap_inserts ((s, n) # cs)) nm"
  by (cases nm) simp_all

lemma map_option_inserts_append:
  "map_option (NameMap_inserts ys) (map_option (NameMap_inserts xs) nm)
     = map_option (NameMap_inserts (xs @ ys)) nm"
  by (cases nm) (simp_all add: NameMap_inserts_append)

text \<open>
  C8. After \<^verbatim>\<open>insert(s, n)\<close> the name list that \<^verbatim>\<open>get_name\<close> returns for \<open>s\<close> is the
  list \<open>s\<close> had before (empty when it had none) followed by \<open>n\<close>, so it contains \<open>n\<close>;
  after a further \<^verbatim>\<open>insert(s, m)\<close> it is that list followed by \<open>n\<close> and then \<open>m\<close>: the second
  insert extends the list, in insertion order, and replaces nothing.
\<close>

theorem insert_extends_name_list:
  "get_name (NameMap_insert s n nm) s
     = Inr ((case names nm s of None \<Rightarrow> [] | Some v \<Rightarrow> v) @ [n])
   \<and> NameMap_has_name (NameMap_insert s n nm) s n
   \<and> get_name (NameMap_insert s m (NameMap_insert s n nm)) s
       = Inr ((case names nm s of None \<Rightarrow> [] | Some v \<Rightarrow> v) @ [n, m])
   \<and> NameMap_has_name (NameMap_insert s m (NameMap_insert s n nm)) s n
   \<and> NameMap_has_name (NameMap_insert s m (NameMap_insert s n nm)) s m"
  by (simp add: get_name_def NameMap_has_name_def names_insert)

theorem insert_extends_name_list_witness:
  "get_name (NameMap_insert (5::nat) ''a'' NameMap_empty) 5 = Inr [''a'']
   \<and> get_name (NameMap_insert (5::nat) ''b'' (NameMap_insert 5 ''a'' NameMap_empty)) 5
       = Inr [''a'', ''b'']"
  using insert_extends_name_list [of "5::nat" "''a''" NameMap_empty "''b''"]
  by (simp add: NameMap_empty_def)

text \<open>
  C4, as the specification states it, fails: when two signals are inserted under the same
  name, the reverse map still gives the signal of the first call, not of the most recent
  one.
\<close>

theorem reverse_map_last_write_counterexample:
  "get_name_to_signal_mapping
     (NameMap_inserts [(1::nat, ''a''), (2, ''a'')] NameMap_empty) ''a'' = Some 1
   \<and> get_name_to_signal_mapping
     (NameMap_inserts [(1::nat, ''a''), (2, ''a'')] NameMap_empty) ''a'' \<noteq> Some 2"
  by (simp add: get_name_to_signal_mapping_def NameMap_insert_def NameMap_empty_def Let_def)

text \<open>
  C4, amended. After any sequence of \<^verbatim>\<open>insert\<close> calls on an empty NameMap, the reverse
  map gives for each name the signal of the first call that used the name (the first
  write wins, later calls under that name change nothing), and the forward map gives for
  each signal all the names inserted for it, in call order, and no entry for a signal
  that was never inserted.
\<close>

theorem reverse_map_first_write_wins:
  "get_name_to_signal_mapping (NameMap_inserts cs NameMap_empty) k
     = map_of (map (\<lambda>c. (snd c, fst c)) cs) k
   \<and> names (NameMap_inserts cs NameMap_empty) s
     = (if s \<in> fst ` set cs then Some (map snd (filter (\<lambda>c. fst c = s) cs)) else None)"
proof -
  have "map snd (filter (\<lambda>c. fst c = s) cs) = [] \<longleftrightarrow> s \<notin> fst ` set cs"
    by (auto simp: filter_empty_conv image_iff)
  then show ?thesis
    by (simp add: get_name_to_signal_mapping_def rev_names_inserts names_inserts
        NameMap_empty_def Let_def)
qed

theorem reverse_map_first_write_wins_witness:
  "get_name_to_signal_mapping
     (NameMap_inserts [(1::nat, ''a''), (2, ''a''), (1, ''b'')] NameMap_empty) ''a'' = Some 1
   \<and> names (NameMap_inserts [(1::nat, ''a''), (2, ''a''), (1, ''b'')] NameMap_empty) 1
       = Some [''a'', ''b'']"
  using reverse_map_first_write_wins [of "[(1::nat, ''a''), (2, ''a''), (1, ''b'')]" "''a''" 1]
  by simp

section \<open>The loops of on_header\<close>

lemma unat_u32_bound: "unat (i :: u32) < 2 ^ 32"
  using unsigned_less [of i, where 'a = nat] by simp

lemma ucast_less_u64: "(ucast (i :: u32) :: u64) < n \<longleftrightarrow> unat i < unat n"
proof -
  have "unat (ucast i :: u64) = unat i"
    by (simp add: unsigned_ucast_eq take_bit_nat_eq_self_iff) (rule less_trans [OF unat_u32_bound], simp)
  then show ?thesis by (simp add: word_less_nat_alt)
qed

lemma unat_succ_u32: "unat (i :: u32) < n \<Longrightarrow> n < 2 ^ 32 \<Longrightarrow> unat (i + 1) = Suc (unat i)"
proof -
  assume "unat i < n" "n < 2 ^ 32"
  then have "unat i + unat (1 :: u32) < 2 ^ LENGTH(32)" by simp
  then have "unat (i + 1) = unat i + unat (1 :: u32)" by (simp only: unat_add_lem)
  then show ?thesis by simp
qed

lemma pi_loop_frame:
  assumes "pi_loop N n i r = Some r'"
  shows "latches r' = latches r \<and> outputs r' = outputs r \<and> names_ptr r' = names_ptr r
         \<and> num_inputs r' = num_inputs r"
proof (rule pi_loop.raw_induct
    [where P = "\<lambda>N n i r r'. latches r' = latches r \<and> outputs r' = outputs r
                  \<and> names_ptr r' = names_ptr r \<and> num_inputs r' = num_inputs r", OF _ assms])
  fix f and N :: "('a, 'b) Ntk" and n i and r y :: "('a, 'b) aiger_reader"
  assume IH: "\<And>(N :: ('a, 'b) Ntk) n i r y. f N n i r = Some y \<Longrightarrow>
                 latches y = latches r \<and> outputs y = outputs r \<and> names_ptr y = names_ptr r
                 \<and> num_inputs y = num_inputs r"
    and step: "(if (ucast (i::u32) :: u64) < n then f N n (i + 1) (pi_body N i r) else Some r) = Some y"
  show "latches y = latches r \<and> outputs y = outputs r \<and> names_ptr y = names_ptr r
         \<and> num_inputs y = num_inputs r"
  proof (cases "(ucast i :: u64) < n")
    case True
    with step have "f N n (i + 1) (pi_body N i r) = Some y" by simp
    from IH [OF this] show ?thesis
      by (simp add: pi_body_def Let_def split: prod.splits)
  next
    case False
    with step show ?thesis by simp
  qed
qed

lemma pi_loop_diverges:
  assumes big: "2 ^ 32 \<le> unat n"
  shows "pi_loop N n i r = None"
proof (cases "pi_loop N n i r")
  case None
  then show ?thesis .
next
  case (Some r')
  have "unat n < 2 ^ 32"
  proof (rule pi_loop.raw_induct [where P = "\<lambda>N n i r r'. unat n < 2 ^ 32", OF _ Some])
    fix f and N :: "('a, 'b) Ntk" and n i and r y :: "('a, 'b) aiger_reader"
    assume IH: "\<And>(N :: ('a, 'b) Ntk) n i (r :: ('a, 'b) aiger_reader) (y :: ('a, 'b) aiger_reader).
                   f N n i r = Some y \<Longrightarrow> unat (n :: u64) < 2 ^ 32"
      and step: "(if (ucast (i::u32) :: u64) < n then f N n (i + 1) (pi_body N i r) else Some r) = Some y"
    show "unat n < 2 ^ 32"
    proof (cases "(ucast i :: u64) < n")
      case True
      with step have "f N n (i + 1) (pi_body N i r) = Some y" by simp
      from IH [OF this] show ?thesis .
    next
      case False
      then have "unat n \<le> unat i" by (simp add: ucast_less_u64)
      with unat_u32_bound [of i] show ?thesis by simp
    qed
  qed
  with big show ?thesis by simp
qed

lemma map_upt_shift: "f 0 # map (\<lambda>j. f (Suc j)) [0..<k] = map f [0..<Suc k]"
  by (simp add: map_upt_Suc del: upt_Suc)

lemma pi_loop_aig:
  assumes "unat i + k = unat n" and "unat n < 2 ^ 32"
  shows "\<exists>g'. pi_loop (aig_ntk a b) n i r
               = Some (r\<lparr>ntk := g',
                        signals := signals r @ map (\<lambda>j. (length (nodes (ntk r)) + j, False)) [0..<k]\<rparr>)
            \<and> nodes g' = nodes (ntk r) @ replicate k Node_pi
            \<and> cos g' = cos (ntk r) \<and> output_names g' = output_names (ntk r)"
  using assms
proof (induction k arbitrary: i r)
  case 0
  then have "\<not> (ucast i :: u64) < n" by (simp add: ucast_less_u64)
  then have "pi_loop (aig_ntk a b) n i r = Some r"
    by (subst pi_loop.simps) simp
  then show ?case by (intro exI [of _ "ntk r"]) simp
next
  case (Suc k)
  let ?r1 = "pi_body (aig_ntk a b) i r"
  from Suc.prems have lt: "unat i < unat n" by simp
  then have step: "pi_loop (aig_ntk a b) n i r = pi_loop (aig_ntk a b) n (i + 1) ?r1"
    by (subst pi_loop.simps) (simp add: ucast_less_u64)
  have "unat (i + 1) = Suc (unat i)"
    using lt Suc.prems(2) by (rule unat_succ_u32)
  with Suc.prems have "unat (i + 1) + k = unat n" by simp
  from Suc.IH [OF this Suc.prems(2), of ?r1]
  obtain g' where run: "pi_loop (aig_ntk a b) n (i + 1) ?r1
        = Some (?r1\<lparr>ntk := g',
                   signals := signals ?r1 @ map (\<lambda>j. (length (nodes (ntk ?r1)) + j, False)) [0..<k]\<rparr>)"
    and g': "nodes g' = nodes (ntk ?r1) @ replicate k Node_pi" "cos g' = cos (ntk ?r1)"
      "output_names g' = output_names (ntk ?r1)"
    by blast
  have sig1: "signals ?r1 = signals r @ [(length (nodes (ntk r)), False)]"
    by (simp add: pi_body_def aig_ntk_def aig_new_node_def Let_def)
  have nodes1: "nodes (ntk ?r1) = nodes (ntk r) @ [Node_pi]"
    and cos1: "cos (ntk ?r1) = cos (ntk r)"
    and on1: "output_names (ntk ?r1) = output_names (ntk r)"
    by (simp_all add: pi_body_def aig_ntk_def aig_new_node_def Let_def)
  have rest1: "?r1\<lparr>ntk := g', signals := xs\<rparr> = r\<lparr>ntk := g', signals := xs\<rparr>" for xs
    by (simp add: pi_body_def Let_def split: prod.splits)
  have "signals ?r1 @ map (\<lambda>j. (length (nodes (ntk ?r1)) + j, False)) [0..<k]
        = signals r @ map (\<lambda>j. (length (nodes (ntk r)) + j, False)) [0..<Suc k]"
    unfolding sig1 nodes1
    using map_upt_shift [of "\<lambda>j. (length (nodes (ntk r)) + j, False)" k]
    by simp
  with run step rest1 have "pi_loop (aig_ntk a b) n i r
      = Some (r\<lparr>ntk := g',
                signals := signals r @ map (\<lambda>j. (length (nodes (ntk r)) + j, False)) [0..<Suc k]\<rparr>)"
    by simp
  moreover have "nodes g' = nodes (ntk r) @ replicate (Suc k) Node_pi"
    using g'(1) nodes1 by (simp add: replicate_app_Cons_same)
  ultimately show ?case using g'(2,3) cos1 on1 by (intro exI [of _ g']) simp
qed

section \<open>The reader on the target network\<close>

lemma aig_ntk_sel:
  "get_constant (aig_ntk a b) g v = (0, v)"
  "create_pi (aig_ntk a b) g = ((length (nodes g), False), g\<lparr>nodes := nodes g @ [Node_pi]\<rparr>)"
  "create_ro (aig_ntk a b) g = ((length (nodes g), False), g\<lparr>nodes := nodes g @ [Node_ro]\<rparr>)"
  "create_po (aig_ntk a b) g s = g\<lparr>cos := cos g @ [PO s]\<rparr>"
  "create_ri (aig_ntk a b) g s reset = g\<lparr>cos := cos g @ [RI s reset]\<rparr>"
  "create_not (aig_ntk a b) g s = ((fst s, \<not> snd s), g)"
  "create_and (aig_ntk a b) g x y
     = ((length (nodes g), False), g\<lparr>nodes := nodes g @ [Node_and x y]\<rparr>)"
  "has_set_name_v (aig_ntk a b) = a"
  "has_name (aig_ntk a b) g s = (signal_names g s \<noteq> None)"
  "set_name (aig_ntk a b) g s name = g\<lparr>signal_names := (signal_names g)(s \<mapsto> name)\<rparr>"
  "has_set_output_name_v (aig_ntk a b) = b"
  "has_output_name (aig_ntk a b) g index = (output_names g index \<noteq> None)"
  "set_output_name (aig_ntk a b) g index name
     = g\<lparr>output_names := (output_names g)(index \<mapsto> name)\<rparr>"
  by (simp_all add: aig_ntk_def aig_new_node_def)

lemma resolve_aig:
  "resolve (aig_ntk a b) sigs g lit
     = (if lit_in_table sigs lit then Inr (aig_lit sigs lit, g) else Inl OutOfBoundsRead)"
  by (simp add: resolve_def at_index_def lit_in_table_def aig_lit_def aig_ntk_def Let_def)

lemma default_names_Suc:
  "default_names pre idx cnt (Suc n)
     = (idx, pre @ to_string (unat cnt)) # default_names pre (idx + 1) (cnt + 1) n"
proof -
  let ?f = "\<lambda>j. (idx + of_nat j, pre @ to_string (unat (cnt + of_nat j)))"
  have "default_names pre idx cnt (Suc n) = ?f 0 # map (\<lambda>j. ?f (Suc j)) [0..<n]"
    unfolding default_names_def by (rule map_upt_shift [symmetric])
  then show ?thesis
    by (simp add: default_names_def add.assoc)
qed

lemma po_loop_aig:
  assumes "\<forall>out \<in> set os. lit_in_table sigs (fst out)"
  shows "\<exists>g'. po_loop (aig_ntk a b) sigs os (g, nm, idx)
               = Inr (g', map_option (NameMap_inserts (map (\<lambda>out. (aig_lit sigs (fst out), snd out)) os)) nm,
                      idx + of_nat (length os))
            \<and> nodes g' = nodes g \<and> signal_names g' = signal_names g
            \<and> cos g' = cos g @ map (\<lambda>out. PO (aig_lit sigs (fst out))) os
            \<and> (\<forall>p. output_names g' p
                   = (if b then (case output_names g p of
                                   Some n \<Rightarrow> Some n
                                 | None \<Rightarrow> map_of (default_names ''po'' idx idx (length os)) p)
                      else output_names g p))"
  using assms
proof (induction os arbitrary: g nm idx)
  case Nil
  show ?case
    by (intro exI [of _ g]) (simp add: default_names_def option.map_ident split: option.splits)
next
  case (Cons out os)
  define s where "s = aig_lit sigs (fst out)"
  define g2 where "g2 = g\<lparr>cos := cos g @ [PO s]\<rparr>"
  define g3 where "g3 = (if b \<and> output_names g idx = None
                         then g2\<lparr>output_names := (output_names g)(idx \<mapsto> ''po'' @ to_string (unat idx))\<rparr>
                         else g2)"
  define nm1 where "nm1 = map_option (NameMap_insert s (snd out)) nm"
  from Cons.prems have in_tab: "lit_in_table sigs (fst out)"
    and rest: "\<forall>out \<in> set os. lit_in_table sigs (fst out)" by simp_all
  have step: "po_loop (aig_ntk a b) sigs (out # os) (g, nm, idx)
                = po_loop (aig_ntk a b) sigs os (g3, nm1, idx + 1)"
    using in_tab
    by (simp add: resolve_aig aig_ntk_sel Let_def s_def g2_def g3_def nm1_def)
  from Cons.IH [OF rest, of g3 nm1 "idx + 1"]
  obtain g' where run: "po_loop (aig_ntk a b) sigs os (g3, nm1, idx + 1)
        = Inr (g', map_option (NameMap_inserts (map (\<lambda>out. (aig_lit sigs (fst out), snd out)) os)) nm1,
               idx + 1 + of_nat (length os))"
    and g': "nodes g' = nodes g3" "signal_names g' = signal_names g3"
      "cos g' = cos g3 @ map (\<lambda>out. PO (aig_lit sigs (fst out))) os"
    and names: "\<And>p. output_names g' p
                   = (if b then (case output_names g3 p of
                                   Some n \<Rightarrow> Some n
                                 | None \<Rightarrow> map_of (default_names ''po'' (idx + 1) (idx + 1) (length os)) p)
                      else output_names g3 p)"
    by blast
  have "po_loop (aig_ntk a b) sigs (out # os) (g, nm, idx)
               = Inr (g', map_option (NameMap_inserts (map (\<lambda>out. (aig_lit sigs (fst out), snd out)) (out # os))) nm,
                      idx + of_nat (length (out # os)))"
    unfolding step run by (simp add: nm1_def map_option_inserts s_def add.assoc)
  moreover have "nodes g' = nodes g" "signal_names g' = signal_names g"
    using g'(1,2) by (simp_all add: g3_def g2_def)
  moreover have "cos g' = cos g @ map (\<lambda>out. PO (aig_lit sigs (fst out))) (out # os)"
    using g'(3) by (simp add: g3_def g2_def s_def)
  moreover have "output_names g' p
                   = (if b then (case output_names g p of
                                   Some n \<Rightarrow> Some n
                                 | None \<Rightarrow> map_of (default_names ''po'' idx idx (length (out # os))) p)
                      else output_names g p)" for p
    unfolding names [of p]
    by (simp add: default_names_Suc g3_def g2_def split: option.splits)
  ultimately show ?case by blast
qed


lemma ri_loop_aig:
  assumes "\<forall>l \<in> set ls. lit_in_table sigs (fst l)"
  shows "\<exists>g'. ri_loop (aig_ntk a b) sigs ls (g, nm, idx, lidx)
               = Inr (g', map_option (NameMap_inserts
                            (map (\<lambda>l. (aig_lit sigs (fst l), snd (snd l) @ ''_next'')) ls)) nm,
                      idx + of_nat (length ls), lidx + of_nat (length ls))
            \<and> nodes g' = nodes g \<and> signal_names g' = signal_names g
            \<and> cos g' = cos g @ map (\<lambda>l. RI (aig_lit sigs (fst l)) (fst (snd l))) ls
            \<and> (\<forall>p. output_names g' p
                   = (if b then (case output_names g p of
                                   Some n \<Rightarrow> Some n
                                 | None \<Rightarrow> map_of (default_names ''li'' idx lidx (length ls)) p)
                      else output_names g p))"
  using assms
proof (induction ls arbitrary: g nm idx lidx)
  case Nil
  show ?case
    by (intro exI [of _ g]) (simp add: default_names_def option.map_ident split: option.splits)
next
  case (Cons l ls)
  define s where "s = aig_lit sigs (fst l)"
  define g2 where "g2 = g\<lparr>cos := cos g @ [RI s (fst (snd l))]\<rparr>"
  define g3 where "g3 = (if b \<and> output_names g idx = None
                         then g2\<lparr>output_names := (output_names g)(idx \<mapsto> ''li'' @ to_string (unat lidx))\<rparr>
                         else g2)"
  define nm1 where "nm1 = map_option (NameMap_insert s (snd (snd l) @ ''_next'')) nm"
  from Cons.prems have in_tab: "lit_in_table sigs (fst l)"
    and rest: "\<forall>l \<in> set ls. lit_in_table sigs (fst l)" by simp_all
  have step: "ri_loop (aig_ntk a b) sigs (l # ls) (g, nm, idx, lidx)
                = ri_loop (aig_ntk a b) sigs ls (g3, nm1, idx + 1, lidx + 1)"
    using in_tab
    by (simp add: resolve_aig aig_ntk_sel Let_def s_def g2_def g3_def nm1_def)
  from Cons.IH [OF rest, of g3 nm1 "idx + 1" "lidx + 1"]
  obtain g' where run: "ri_loop (aig_ntk a b) sigs ls (g3, nm1, idx + 1, lidx + 1)
        = Inr (g', map_option (NameMap_inserts
                      (map (\<lambda>l. (aig_lit sigs (fst l), snd (snd l) @ ''_next'')) ls)) nm1,
               idx + 1 + of_nat (length ls), lidx + 1 + of_nat (length ls))"
    and g': "nodes g' = nodes g3" "signal_names g' = signal_names g3"
      "cos g' = cos g3 @ map (\<lambda>l. RI (aig_lit sigs (fst l)) (fst (snd l))) ls"
    and names: "\<And>p. output_names g' p
                   = (if b then (case output_names g3 p of
                                   Some n \<Rightarrow> Some n
                                 | None \<Rightarrow> map_of (default_names ''li'' (idx + 1) (lidx + 1) (length ls)) p)
                      else output_names g3 p)"
    by blast
  have "ri_loop (aig_ntk a b) sigs (l # ls) (g, nm, idx, lidx)
               = Inr (g', map_option (NameMap_inserts
                            (map (\<lambda>l. (aig_lit sigs (fst l), snd (snd l) @ ''_next'')) (l # ls))) nm,
                      idx + of_nat (length (l # ls)), lidx + of_nat (length (l # ls)))"
    unfolding step run by (simp add: nm1_def map_option_inserts s_def add.assoc)
  moreover have "nodes g' = nodes g" "signal_names g' = signal_names g"
    using g'(1,2) by (simp_all add: g3_def g2_def)
  moreover have "cos g' = cos g @ map (\<lambda>l. RI (aig_lit sigs (fst l)) (fst (snd l))) (l # ls)"
    using g'(3) by (simp add: g3_def g2_def s_def)
  moreover have "output_names g' p
                   = (if b then (case output_names g p of
                                   Some n \<Rightarrow> Some n
                                 | None \<Rightarrow> map_of (default_names ''li'' idx lidx (length (l # ls))) p)
                      else output_names g p)" for p
    unfolding names [of p]
    by (simp add: default_names_Suc g3_def g2_def split: option.splits)
  ultimately show ?case by blast
qed

lemma destructor_aig:
  assumes outs: "\<forall>out \<in> set (outputs r). lit_in_table (signals r) (fst out)"
    and lats: "\<forall>l \<in> set (latches r). lit_in_table (signals r) (fst l)"
  shows "\<exists>g'. destructor (aig_ntk a b) r
               = Inr (g', map_option (NameMap_inserts
                            (map (\<lambda>out. (aig_lit (signals r) (fst out), snd out)) (outputs r)
                             @ map (\<lambda>l. (aig_lit (signals r) (fst l), snd (snd l) @ ''_next''))
                                 (latches r))) (names_ptr r))
            \<and> nodes g' = nodes (ntk r) \<and> signal_names g' = signal_names (ntk r)
            \<and> cos g' = cos (ntk r)
                 @ map (\<lambda>out. PO (aig_lit (signals r) (fst out))) (outputs r)
                 @ map (\<lambda>l. RI (aig_lit (signals r) (fst l)) (fst (snd l))) (latches r)
            \<and> (\<forall>p. output_names g' p
                   = (if b then (case output_names (ntk r) p of
                                   Some n \<Rightarrow> Some n
                                 | None \<Rightarrow>
                                     map_of (default_names ''po'' 0 0 (length (outputs r))
                                             @ default_names ''li'' (of_nat (length (outputs r))) 1
                                                 (length (latches r))) p)
                      else output_names (ntk r) p))"
proof -
  from po_loop_aig [OF outs, of a b "ntk r" "names_ptr r" 0]
  obtain g1 where po: "po_loop (aig_ntk a b) (signals r) (outputs r) (ntk r, names_ptr r, 0)
        = Inr (g1, map_option (NameMap_inserts
                     (map (\<lambda>out. (aig_lit (signals r) (fst out), snd out)) (outputs r))) (names_ptr r),
               of_nat (length (outputs r)))"
    and g1: "nodes g1 = nodes (ntk r)" "signal_names g1 = signal_names (ntk r)"
      "cos g1 = cos (ntk r) @ map (\<lambda>out. PO (aig_lit (signals r) (fst out))) (outputs r)"
    and names1: "\<And>p. output_names g1 p
                   = (if b then (case output_names (ntk r) p of
                                   Some n \<Rightarrow> Some n
                                 | None \<Rightarrow> map_of (default_names ''po'' 0 0 (length (outputs r))) p)
                      else output_names (ntk r) p)"
    by (auto simp del: map_of_append)
  let ?nm1 = "map_option (NameMap_inserts
                     (map (\<lambda>out. (aig_lit (signals r) (fst out), snd out)) (outputs r))) (names_ptr r)"
  from ri_loop_aig [OF lats, of a b g1 ?nm1 "of_nat (length (outputs r))" 1]
  obtain g2 where ri: "ri_loop (aig_ntk a b) (signals r) (latches r)
                         (g1, ?nm1, of_nat (length (outputs r)), 1)
        = Inr (g2, map_option (NameMap_inserts
                      (map (\<lambda>l. (aig_lit (signals r) (fst l), snd (snd l) @ ''_next'')) (latches r))) ?nm1,
               of_nat (length (outputs r)) + of_nat (length (latches r)),
               1 + of_nat (length (latches r)))"
    and g2: "nodes g2 = nodes g1" "signal_names g2 = signal_names g1"
      "cos g2 = cos g1 @ map (\<lambda>l. RI (aig_lit (signals r) (fst l)) (fst (snd l))) (latches r)"
    and names2: "\<And>p. output_names g2 p
                   = (if b then (case output_names g1 p of
                                   Some n \<Rightarrow> Some n
                                 | None \<Rightarrow> map_of (default_names ''li'' (of_nat (length (outputs r))) 1
                                                     (length (latches r))) p)
                      else output_names g1 p)"
    by blast
  have "destructor (aig_ntk a b) r
               = Inr (g2, map_option (NameMap_inserts
                            (map (\<lambda>out. (aig_lit (signals r) (fst out), snd out)) (outputs r)
                             @ map (\<lambda>l. (aig_lit (signals r) (fst l), snd (snd l) @ ''_next''))
                                 (latches r))) (names_ptr r))"
    unfolding destructor_def po
    by (simp add: ri map_option_inserts_append)
  moreover have "nodes g2 = nodes (ntk r)" "signal_names g2 = signal_names (ntk r)"
    using g1 g2 by simp_all
  moreover have "cos g2 = cos (ntk r)
                 @ map (\<lambda>out. PO (aig_lit (signals r) (fst out))) (outputs r)
                 @ map (\<lambda>l. RI (aig_lit (signals r) (fst l)) (fst (snd l))) (latches r)"
    using g1 g2 by simp
  moreover have "output_names g2 p
                   = (if b then (case output_names (ntk r) p of
                                   Some n \<Rightarrow> Some n
                                 | None \<Rightarrow>
                                     map_of (default_names ''po'' 0 0 (length (outputs r))
                                             @ default_names ''li'' (of_nat (length (outputs r))) 1
                                                 (length (latches r))) p)
                      else output_names (ntk r) p)" for p
    unfolding names2 [of p] names1 [of p]
    by (simp add: map_add_def split: option.splits)
  ultimately show ?thesis by blast
qed

section \<open>The second loop of on_header and the whole handler\<close>

lemma ro_loop_frame:
  assumes "ro_loop N n i r = Some r'"
  shows "latches r' = latches r \<and> outputs r' = outputs r \<and> names_ptr r' = names_ptr r
         \<and> num_inputs r' = num_inputs r"
proof (rule ro_loop.raw_induct
    [where P = "\<lambda>N n i r r'. latches r' = latches r \<and> outputs r' = outputs r
                  \<and> names_ptr r' = names_ptr r \<and> num_inputs r' = num_inputs r", OF _ assms])
  fix f and N :: "('a, 'b) Ntk" and n i and r y :: "('a, 'b) aiger_reader"
  assume IH: "\<And>(N :: ('a, 'b) Ntk) n i r y. f N n i r = Some y \<Longrightarrow>
                 latches y = latches r \<and> outputs y = outputs r \<and> names_ptr y = names_ptr r
                 \<and> num_inputs y = num_inputs r"
    and step: "(if (ucast (i::u32) :: u64) < n then f N n (i + 1) (ro_body N r) else Some r) = Some y"
  show "latches y = latches r \<and> outputs y = outputs r \<and> names_ptr y = names_ptr r
         \<and> num_inputs y = num_inputs r"
  proof (cases "(ucast i :: u64) < n")
    case True
    with step have "f N n (i + 1) (ro_body N r) = Some y" by simp
    from IH [OF this] show ?thesis
      by (simp add: ro_body_def Let_def split: prod.splits)
  next
    case False
    with step show ?thesis by simp
  qed
qed

lemma ro_loop_diverges:
  assumes big: "2 ^ 32 \<le> unat n"
  shows "ro_loop N n i r = None"
proof (cases "ro_loop N n i r")
  case None
  then show ?thesis .
next
  case (Some r')
  have "unat n < 2 ^ 32"
  proof (rule ro_loop.raw_induct [where P = "\<lambda>N n i r r'. unat n < 2 ^ 32", OF _ Some])
    fix f and N :: "('a, 'b) Ntk" and n i and r y :: "('a, 'b) aiger_reader"
    assume IH: "\<And>(N :: ('a, 'b) Ntk) n i (r :: ('a, 'b) aiger_reader) (y :: ('a, 'b) aiger_reader).
                   f N n i r = Some y \<Longrightarrow> unat (n :: u64) < 2 ^ 32"
      and step: "(if (ucast (i::u32) :: u64) < n then f N n (i + 1) (ro_body N r) else Some r) = Some y"
    show "unat n < 2 ^ 32"
    proof (cases "(ucast i :: u64) < n")
      case True
      with step have "f N n (i + 1) (ro_body N r) = Some y" by simp
      from IH [OF this] show ?thesis .
    next
      case False
      then have "unat n \<le> unat i" by (simp add: ucast_less_u64)
      with unat_u32_bound [of i] show ?thesis by simp
    qed
  qed
  with big show ?thesis by simp
qed

lemma ro_loop_aig:
  assumes "unat i + k = unat n" and "unat n < 2 ^ 32"
  shows "\<exists>g'. ro_loop (aig_ntk a b) n i r
               = Some (r\<lparr>ntk := g',
                        signals := signals r @ map (\<lambda>j. (length (nodes (ntk r)) + j, False)) [0..<k]\<rparr>)
            \<and> nodes g' = nodes (ntk r) @ replicate k Node_ro
            \<and> cos g' = cos (ntk r) \<and> output_names g' = output_names (ntk r)"
  using assms
proof (induction k arbitrary: i r)
  case 0
  then have "\<not> (ucast i :: u64) < n" by (simp add: ucast_less_u64)
  then have "ro_loop (aig_ntk a b) n i r = Some r"
    by (subst ro_loop.simps) simp
  then show ?case by (intro exI [of _ "ntk r"]) simp
next
  case (Suc k)
  let ?r1 = "ro_body (aig_ntk a b) r"
  from Suc.prems have lt: "unat i < unat n" by simp
  then have step: "ro_loop (aig_ntk a b) n i r = ro_loop (aig_ntk a b) n (i + 1) ?r1"
    by (subst ro_loop.simps) (simp add: ucast_less_u64)
  have "unat (i + 1) = Suc (unat i)"
    using lt Suc.prems(2) by (rule unat_succ_u32)
  with Suc.prems have "unat (i + 1) + k = unat n" by simp
  from Suc.IH [OF this Suc.prems(2), of ?r1]
  obtain g' where run: "ro_loop (aig_ntk a b) n (i + 1) ?r1
        = Some (?r1\<lparr>ntk := g',
                   signals := signals ?r1 @ map (\<lambda>j. (length (nodes (ntk ?r1)) + j, False)) [0..<k]\<rparr>)"
    and g': "nodes g' = nodes (ntk ?r1) @ replicate k Node_ro" "cos g' = cos (ntk ?r1)"
      "output_names g' = output_names (ntk ?r1)"
    by blast
  have sig1: "signals ?r1 = signals r @ [(length (nodes (ntk r)), False)]"
    by (simp add: ro_body_def aig_ntk_sel Let_def)
  have nodes1: "nodes (ntk ?r1) = nodes (ntk r) @ [Node_ro]"
    and cos1: "cos (ntk ?r1) = cos (ntk r)"
    and on1: "output_names (ntk ?r1) = output_names (ntk r)"
    by (simp_all add: ro_body_def aig_ntk_sel Let_def)
  have rest1: "?r1\<lparr>ntk := g', signals := xs\<rparr> = r\<lparr>ntk := g', signals := xs\<rparr>" for xs
    by (simp add: ro_body_def Let_def split: prod.splits)
  have "signals ?r1 @ map (\<lambda>j. (length (nodes (ntk ?r1)) + j, False)) [0..<k]
        = signals r @ map (\<lambda>j. (length (nodes (ntk r)) + j, False)) [0..<Suc k]"
    unfolding sig1 nodes1
    using map_upt_shift [of "\<lambda>j. (length (nodes (ntk r)) + j, False)" k]
    by simp
  with run step rest1 have "ro_loop (aig_ntk a b) n i r
      = Some (r\<lparr>ntk := g',
                signals := signals r @ map (\<lambda>j. (length (nodes (ntk r)) + j, False)) [0..<Suc k]\<rparr>)"
    by simp
  moreover have "nodes g' = nodes (ntk r) @ replicate (Suc k) Node_ro"
    using g'(1) nodes1 by (simp add: replicate_app_Cons_same)
  ultimately show ?case using g'(2,3) cos1 on1 by (intro exI [of _ g']) simp
qed

lemma on_header_frame:
  assumes "on_header N m ni nl no na r = Some r'"
  shows "latches r' = latches r \<and> outputs r' = outputs r \<and> names_ptr r' = names_ptr r"
proof -
  let ?r2 = "r\<lparr>num_inputs := ucast ni,
                signals := signals r @ [get_constant N (ntk r) False]\<rparr>"
  from assms obtain r3 where p: "pi_loop N ni 0 ?r2 = Some r3" and q: "ro_loop N nl 0 r3 = Some r'"
    by (auto simp: on_header_def Let_def split: option.splits)
  from pi_loop_frame [OF p] ro_loop_frame [OF q] show ?thesis by simp
qed

lemma on_header_diverges:
  assumes "2 ^ 32 \<le> unat ni \<or> 2 ^ 32 \<le> unat nl"
  shows "on_header N m ni nl no na r = None"
  using assms
  by (auto simp: on_header_def Let_def pi_loop_diverges ro_loop_diverges split: option.splits)

lemma on_header_aig:
  assumes ni: "unat ni < 2 ^ 32" and nl: "unat nl < 2 ^ 32"
  shows "\<exists>g'. on_header (aig_ntk a b) m ni nl no na r
               = Some (r\<lparr>num_inputs := ucast ni, ntk := g',
                        signals := signals r @ [(0, False)]
                          @ map (\<lambda>j. (length (nodes (ntk r)) + j, False)) [0..<unat ni]
                          @ map (\<lambda>j. (length (nodes (ntk r)) + unat ni + j, False)) [0..<unat nl]\<rparr>)
            \<and> nodes g' = nodes (ntk r) @ replicate (unat ni) Node_pi @ replicate (unat nl) Node_ro
            \<and> cos g' = cos (ntk r) \<and> output_names g' = output_names (ntk r)"
proof -
  let ?r2 = "r\<lparr>num_inputs := ucast ni, signals := signals r @ [(0, False)]\<rparr>"
  have "unat (0 :: u32) + unat ni = unat ni" by simp
  from pi_loop_aig [OF this ni, of a b ?r2]
  obtain g1 where p: "pi_loop (aig_ntk a b) ni 0 ?r2
        = Some (?r2\<lparr>ntk := g1,
                   signals := signals ?r2 @ map (\<lambda>j. (length (nodes (ntk ?r2)) + j, False)) [0..<unat ni]\<rparr>)"
    and g1: "nodes g1 = nodes (ntk ?r2) @ replicate (unat ni) Node_pi" "cos g1 = cos (ntk ?r2)"
      "output_names g1 = output_names (ntk ?r2)"
    by blast
  let ?r3 = "?r2\<lparr>ntk := g1,
                   signals := signals ?r2 @ map (\<lambda>j. (length (nodes (ntk ?r2)) + j, False)) [0..<unat ni]\<rparr>"
  have "unat (0 :: u32) + unat nl = unat nl" by simp
  from ro_loop_aig [OF this nl, of a b ?r3]
  obtain g2 where q: "ro_loop (aig_ntk a b) nl 0 ?r3
        = Some (?r3\<lparr>ntk := g2,
                   signals := signals ?r3 @ map (\<lambda>j. (length (nodes (ntk ?r3)) + j, False)) [0..<unat nl]\<rparr>)"
    and g2: "nodes g2 = nodes (ntk ?r3) @ replicate (unat nl) Node_ro" "cos g2 = cos (ntk ?r3)"
      "output_names g2 = output_names (ntk ?r3)"
    by blast
  have "on_header (aig_ntk a b) m ni nl no na r
               = Some (r\<lparr>num_inputs := ucast ni, ntk := g2,
                        signals := signals r @ [(0, False)]
                          @ map (\<lambda>j. (length (nodes (ntk r)) + j, False)) [0..<unat ni]
                          @ map (\<lambda>j. (length (nodes (ntk r)) + unat ni + j, False)) [0..<unat nl]\<rparr>)"
    unfolding on_header_def Let_def
    using p q g1 by (simp add: aig_ntk_sel)
  moreover have "nodes g2 = nodes (ntk r) @ replicate (unat ni) Node_pi @ replicate (unat nl) Node_ro"
    "cos g2 = cos (ntk r)" "output_names g2 = output_names (ntk r)"
    using g1 g2 by simp_all
  ultimately show ?thesis by blast
qed

section \<open>Literals\<close>

lemma lit_xor_index: "drop_bit 1 (L XOR 1) = drop_bit 1 (L :: u32)"
  by (simp only: drop_bit_xor drop_bit_of_1) simp



lemma lit_in_table_xor: "lit_in_table sigs (L XOR 1) = lit_in_table sigs L"
  by (simp add: lit_in_table_def lit_xor_index)



lemma resolve_cases:
  "resolve N sigs g lit
     = (if lit_in_table sigs lit
        then Inr (if lit AND 1 \<noteq> 0 then create_not N g (sigs ! unat (drop_bit 1 lit))
                  else (sigs ! unat (drop_bit 1 lit), g))
        else Inl OutOfBoundsRead)"
  by (simp add: resolve_def at_index_def lit_in_table_def)

lemma resolve_not_malformed: "resolve N sigs g lit \<noteq> Inl MalformedStream"
  by (simp add: resolve_cases)

lemma resolve_in_table:
  "lit_in_table sigs lit \<Longrightarrow> \<exists>s g1. resolve N sigs g lit = Inr (s, g1)"
  by (simp add: resolve_cases)

lemma resolve_out_of_table:
  "\<not> lit_in_table sigs lit \<Longrightarrow> resolve N sigs g lit = Inl OutOfBoundsRead"
  by (simp add: resolve_cases)

lemma po_loop_in_table:
  "\<forall>out \<in> set os. lit_in_table sigs (fst out)
     \<Longrightarrow> \<exists>st'. po_loop N sigs os (g, nm, idx) = Inr st'"
proof (induction os arbitrary: g nm idx)
  case Nil
  show ?case by simp
next
  case (Cons out os)
  from Cons.prems have "lit_in_table sigs (fst out)" by simp
  from resolve_in_table [OF this, where N = N and g = g]
  obtain s g1 where "resolve N sigs g (fst out) = Inr (s, g1)"
    by blast
  moreover from Cons have "\<And>g nm idx. \<exists>st'. po_loop N sigs os (g, nm, idx) = Inr st'" by simp
  ultimately show ?case by (simp add: Let_def)
qed

lemma ri_loop_in_table:
  "\<forall>l \<in> set ls. lit_in_table sigs (fst l)
     \<Longrightarrow> \<exists>st'. ri_loop N sigs ls (g, nm, idx, lidx) = Inr st'"
proof (induction ls arbitrary: g nm idx lidx)
  case Nil
  show ?case by simp
next
  case (Cons l ls)
  from Cons.prems have "lit_in_table sigs (fst l)" by simp
  from resolve_in_table [OF this, where N = N and g = g]
  obtain s g1 where "resolve N sigs g (fst l) = Inr (s, g1)"
    by blast
  moreover from Cons
  have "\<And>g nm idx lidx. \<exists>st'. ri_loop N sigs ls (g, nm, idx, lidx) = Inr st'" by simp
  ultimately show ?case by (simp add: Let_def)
qed

lemma po_loop_out_of_table:
  "\<exists>out \<in> set os. \<not> lit_in_table sigs (fst out) \<Longrightarrow> po_loop N sigs os st = Inl OutOfBoundsRead"
proof (induction os arbitrary: st)
  case Nil
  then show ?case by simp
next
  case (Cons out os)
  obtain g nm idx where st: "st = (g, nm, idx)" by (cases st) auto
  show ?case
  proof (cases "lit_in_table sigs (fst out)")
    case True
    with Cons.prems have "\<exists>out \<in> set os. \<not> lit_in_table sigs (fst out)" by simp
    from Cons.IH [OF this] have "\<And>st. po_loop N sigs os st = Inl OutOfBoundsRead" .
    moreover from resolve_in_table [OF True, where N = N and g = g]
    obtain s g1 where "resolve N sigs g (fst out) = Inr (s, g1)" by blast
    ultimately show ?thesis by (simp add: st Let_def)
  next
    case False
    then show ?thesis by (simp add: st resolve_out_of_table)
  qed
qed

lemma ri_loop_out_of_table:
  "\<exists>l \<in> set ls. \<not> lit_in_table sigs (fst l) \<Longrightarrow> ri_loop N sigs ls st = Inl OutOfBoundsRead"
proof (induction ls arbitrary: st)
  case Nil
  then show ?case by simp
next
  case (Cons l ls)
  obtain g nm idx lidx where st: "st = (g, nm, idx, lidx)" by (cases st) auto
  show ?case
  proof (cases "lit_in_table sigs (fst l)")
    case True
    with Cons.prems have "\<exists>l \<in> set ls. \<not> lit_in_table sigs (fst l)" by simp
    from Cons.IH [OF this] have "\<And>st. ri_loop N sigs ls st = Inl OutOfBoundsRead" .
    moreover from resolve_in_table [OF True, where N = N and g = g]
    obtain s g1 where "resolve N sigs g (fst l) = Inr (s, g1)" by blast
    ultimately show ?thesis by (simp add: st Let_def)
  next
    case False
    then show ?thesis by (simp add: st resolve_out_of_table Let_def)
  qed
qed

lemma destructor_out_of_table:
  assumes "(\<exists>out \<in> set (outputs r). \<not> lit_in_table (signals r) (fst out))
           \<or> (\<exists>l \<in> set (latches r). \<not> lit_in_table (signals r) (fst l))"
  shows "destructor N r = Inl OutOfBoundsRead"
proof (cases "\<exists>out \<in> set (outputs r). \<not> lit_in_table (signals r) (fst out)")
  case True
  from po_loop_out_of_table [OF this, where N = N and st = "(ntk r, names_ptr r, 0)"]
  show ?thesis by (simp add: destructor_def)
next
  case False
  with assms have lat: "\<exists>l \<in> set (latches r). \<not> lit_in_table (signals r) (fst l)" by simp
  from False have "\<forall>out \<in> set (outputs r). lit_in_table (signals r) (fst out)" by simp
  from po_loop_in_table [OF this, where N = N and g = "ntk r" and nm = "names_ptr r" and idx = 0]
  obtain g1 nm1 idx where "po_loop N (signals r) (outputs r) (ntk r, names_ptr r, 0) = Inr (g1, nm1, idx)"
    by (metis prod_cases3)
  moreover have "ri_loop N (signals r) (latches r) (g1, nm1, idx, 1) = Inl OutOfBoundsRead"
    using lat by (rule ri_loop_out_of_table)
  ultimately show ?thesis
    by (simp add: destructor_def)
qed

lemma on_and_out_of_table:
  assumes "ndebug \<or> length (signals r) = unat index"
    and "\<not> lit_in_table (signals r) left_lit \<or> \<not> lit_in_table (signals r) right_lit"
  shows "on_and ndebug N index left_lit right_lit r = Inl OutOfBoundsRead"
  using assms
  by (auto simp: on_and_def resolve_cases split: sum.splits prod.splits)

section \<open>Event streams\<close>

lemma unat_of_nat_u32: "k < 2 ^ 32 \<Longrightarrow> unat (of_nat k :: u32) = k"
  by (simp add: unat_of_nat)

lemma of_nat_u32_inj: "j < 2 ^ 32 \<Longrightarrow> k < 2 ^ 32 \<Longrightarrow> (of_nat j :: u32) = of_nat k \<Longrightarrow> j = k"
  using unat_of_nat_u32 by metis

lemma fst_default_names:
  "fst ` set (default_names pre idx cnt n) = (\<lambda>j. idx + of_nat j) ` {..<n}"
  by (force simp: default_names_def image_iff)

lemma map_of_default_names_miss:
  "p \<notin> (\<lambda>j. idx + of_nat j) ` {..<n} \<Longrightarrow> map_of (default_names pre idx cnt n) p = None"
  by (simp add: map_of_eq_None_iff fst_default_names)

lemma map_of_default_names_hit:
  "k < n \<Longrightarrow> n \<le> 2 ^ 32
     \<Longrightarrow> map_of (default_names pre idx cnt n) (idx + of_nat k)
         = Some (pre @ to_string (unat (cnt + of_nat k)))"
proof (induction n arbitrary: idx cnt k)
  case 0
  then show ?case by simp
next
  case (Suc n)
  show ?case
  proof (cases k)
    case 0
    then show ?thesis by (simp add: default_names_Suc)
  next
    case (Suc k')
    with Suc.prems have k': "k' < n" and n: "n \<le> 2 ^ 32" and small: "Suc k' < 2 ^ 32" by simp_all
    have "(of_nat (Suc k') :: u32) \<noteq> 0"
      using of_nat_u32_inj [of "Suc k'" 0] small by auto
    then have ne: "idx + of_nat (Suc k') \<noteq> idx" by simp
    have shift: "idx + of_nat (Suc k') = idx + 1 + of_nat k'" "cnt + of_nat (Suc k') = cnt + 1 + of_nat k'"
      by simp_all
    from Suc.IH [OF k' n, of "idx + 1" "cnt + 1"] ne show ?thesis
      unfolding Suc default_names_Suc shift [symmetric] by simp
  qed
qed

lemma declared_outputs_Cons: "declared_outputs (e # es) = declared_outputs [e] @ declared_outputs es"
  by (cases e) simp_all

lemma declared_latches_Cons: "declared_latches (e # es) = declared_latches [e] @ declared_latches es"
  by (cases e) simp_all

lemma dispatch_pending:
  assumes "dispatch ndebug N e r = Some (Inr r')"
  shows "outputs r' = outputs r @ map (\<lambda>lit. (lit, '''')) (declared_outputs [e])
       \<and> latches r' = latches r
           @ map (\<lambda>(next, reset). (next, reset_value reset, '''')) (declared_latches [e])
       \<and> names_ptr r' = names_ptr r"
proof (cases e)
  case (Header m i l o0 a)
  with assms have "on_header N m i l o0 a r = Some r'" by auto
  from on_header_frame [OF this] show ?thesis by (simp add: Header)
next
  case (Input_name index name)
  with assms show ?thesis
    by (auto simp: on_input_name_def split: if_splits sum.splits)
next
  case (Output_name index name)
  with assms show ?thesis
    by (auto simp: on_output_name_def split: if_splits)
next
  case (Latch_name index name)
  with assms show ?thesis
    by (auto simp: on_latch_name_def split: if_splits sum.splits)
next
  case (And_gate index left_lit right_lit)
  with assms show ?thesis
    by (auto simp: on_and_def Let_def split: if_splits sum.splits prod.splits)
next
  case (Latch index nxt reset)
  with assms show ?thesis
    by (auto simp: on_latch_def Let_def)
next
  case (Output index lit)
  with assms show ?thesis
    by (auto simp: on_output_def split: if_splits)
qed

lemma run_events_pending:
  assumes "run_events ndebug N es r = Some (Inr r')"
  shows "outputs r' = outputs r @ map (\<lambda>lit. (lit, '''')) (declared_outputs es)
       \<and> latches r' = latches r
           @ map (\<lambda>(next, reset). (next, reset_value reset, '''')) (declared_latches es)
       \<and> names_ptr r' = names_ptr r"
  using assms
proof (induction es arbitrary: r)
  case Nil
  then show ?case by simp
next
  case (Cons e es)
  from Cons.prems obtain r1 where d: "dispatch ndebug N e r = Some (Inr r1)"
    and rest: "run_events ndebug N es r1 = Some (Inr r')"
    by (auto split: option.splits sum.splits)
  from dispatch_pending [OF d] Cons.IH [OF rest] show ?case
    by (simp add: declared_outputs_Cons [of e es] declared_latches_Cons [of e es])
qed

lemma dispatch_aig_cos:
  assumes "dispatch ndebug (aig_ntk a b) e r = Some (Inr r')"
  shows "cos (ntk r') = cos (ntk r)"
proof (cases e)
  case (Header m i l o0 a0)
  with assms have h: "on_header (aig_ntk a b) m i l o0 a0 r = Some r'" by auto
  show ?thesis
  proof (cases "unat i < 2 ^ 32 \<and> unat l < 2 ^ 32")
    case True
    with on_header_aig [of i l a b m o0 a0 r] h show ?thesis by auto
  next
    case False
    then have "2 ^ 32 \<le> unat i \<or> 2 ^ 32 \<le> unat l" by auto
    from on_header_diverges [OF this, where N = "aig_ntk a b" and m = m and no = o0 and na = a0 and r = r] h
    show ?thesis by simp
  qed
next
  case (Input_name index name)
  with assms show ?thesis
    by (auto simp: on_input_name_def aig_ntk_sel split: if_splits sum.splits)
next
  case (Output_name index name)
  with assms show ?thesis
    by (auto simp: on_output_name_def aig_ntk_sel split: if_splits)
next
  case (Latch_name index name)
  with assms show ?thesis
    by (auto simp: on_latch_name_def aig_ntk_sel split: if_splits sum.splits)
next
  case (And_gate index left_lit right_lit)
  with assms show ?thesis
    by (auto simp: on_and_def resolve_aig aig_ntk_sel Let_def split: if_splits)
next
  case (Latch index nxt reset)
  with assms show ?thesis
    by (auto simp: on_latch_def Let_def)
next
  case (Output index lit)
  with assms show ?thesis
    by (auto simp: on_output_def split: if_splits)
qed

lemma run_events_aig_cos:
  assumes "run_events ndebug (aig_ntk a b) es r = Some (Inr r')"
  shows "cos (ntk r') = cos (ntk r)"
  using assms
proof (induction es arbitrary: r)
  case Nil
  then show ?case by simp
next
  case (Cons e es)
  from Cons.prems obtain r1 where d: "dispatch ndebug (aig_ntk a b) e r = Some (Inr r1)"
    and rest: "run_events ndebug (aig_ntk a b) es r1 = Some (Inr r')"
    by (auto split: option.splits sum.splits)
  from dispatch_aig_cos [OF d] Cons.IH [OF rest] show ?case by simp
qed

lemma destructor_aig_names:
  assumes outs: "\<forall>out \<in> set (outputs r). lit_in_table (signals r) (fst out)"
    and lats: "\<forall>l \<in> set (latches r). lit_in_table (signals r) (fst l)"
    and bound: "length (outputs r) + length (latches r) < 2 ^ 32"
  shows "\<exists>g'. destructor (aig_ntk a True) r
               = Inr (g', map_option (NameMap_inserts
                            (map (\<lambda>out. (aig_lit (signals r) (fst out), snd out)) (outputs r)
                             @ map (\<lambda>l. (aig_lit (signals r) (fst l), snd (snd l) @ ''_next''))
                                 (latches r))) (names_ptr r))
            \<and> cos g' = cos (ntk r)
                 @ map (\<lambda>out. PO (aig_lit (signals r) (fst out))) (outputs r)
                 @ map (\<lambda>l. RI (aig_lit (signals r) (fst l)) (fst (snd l))) (latches r)
            \<and> (\<forall>k < length (outputs r).
                  output_names g' (of_nat k)
                    = Some (case output_names (ntk r) (of_nat k) of
                              Some n \<Rightarrow> n | None \<Rightarrow> ''po'' @ to_string k))
            \<and> (\<forall>j < length (latches r).
                  output_names g' (of_nat (length (outputs r) + j))
                    = Some (case output_names (ntk r) (of_nat (length (outputs r) + j)) of
                              Some n \<Rightarrow> n | None \<Rightarrow> ''li'' @ to_string (j + 1)))"
proof -
  let ?no = "length (outputs r)" and ?nl = "length (latches r)"
  let ?po = "default_names ''po'' 0 0 ?no"
  let ?li = "default_names ''li'' (of_nat ?no) 1 ?nl"
  from destructor_aig [OF outs lats, of a True]
  obtain g' where d: "destructor (aig_ntk a True) r
               = Inr (g', map_option (NameMap_inserts
                            (map (\<lambda>out. (aig_lit (signals r) (fst out), snd out)) (outputs r)
                             @ map (\<lambda>l. (aig_lit (signals r) (fst l), snd (snd l) @ ''_next''))
                                 (latches r))) (names_ptr r))"
    and c: "cos g' = cos (ntk r)
                 @ map (\<lambda>out. PO (aig_lit (signals r) (fst out))) (outputs r)
                 @ map (\<lambda>l. RI (aig_lit (signals r) (fst l)) (fst (snd l))) (latches r)"
    and names0: "\<And>p. output_names g' p
                   = (if True then (case output_names (ntk r) p of
                                      Some n \<Rightarrow> Some n
                                    | None \<Rightarrow> map_of (?po @ ?li) p)
                      else output_names (ntk r) p)"
    by blast
  have names: "output_names g' p
                   = (case output_names (ntk r) p of
                        Some n \<Rightarrow> Some n
                      | None \<Rightarrow> (case map_of ?po p of Some n \<Rightarrow> Some n | None \<Rightarrow> map_of ?li p))"
    for p
    unfolding names0 [of p] by (simp add: map_add_def split: option.splits)
  have po: "output_names g' (of_nat k)
              = Some (case output_names (ntk r) (of_nat k) of
                        Some n \<Rightarrow> n | None \<Rightarrow> ''po'' @ to_string k)"
    if k: "k < ?no" for k
  proof -
    from k bound have "k < 2 ^ 32" and "?no \<le> 2 ^ 32" by simp_all
    with map_of_default_names_hit [of k ?no "''po''" 0 0] k
    have "map_of ?po (of_nat k) = Some (''po'' @ to_string k)"
      by (simp add: unat_of_nat_u32)
    then show ?thesis by (simp add: names split: option.splits)
  qed
  have li: "output_names g' (of_nat (?no + j))
              = Some (case output_names (ntk r) (of_nat (?no + j)) of
                        Some n \<Rightarrow> n | None \<Rightarrow> ''li'' @ to_string (j + 1))"
    if j: "j < ?nl" for j
  proof -
    from j bound have small: "?no + j < 2 ^ 32" "Suc j < 2 ^ 32" "?nl \<le> 2 ^ 32" by simp_all
    have "(of_nat (?no + j) :: u32) \<notin> (\<lambda>i. 0 + of_nat i) ` {..<?no}"
    proof
      assume "(of_nat (?no + j) :: u32) \<in> (\<lambda>i. 0 + of_nat i) ` {..<?no}"
      then obtain i where i: "i < ?no" and eq: "(of_nat (?no + j) :: u32) = of_nat i" by auto
      from i small have "i < 2 ^ 32" by simp
      from of_nat_u32_inj [OF small(1) this eq] i show False by simp
    qed
    then have miss: "map_of ?po (of_nat (?no + j)) = None"
      by (rule map_of_default_names_miss)
    have "unat (1 + of_nat j :: u32) = Suc j"
      using unat_of_nat_u32 [OF small(2)] by simp
    with map_of_default_names_hit [OF j small(3), of "''li''" "of_nat ?no" 1]
    have "map_of ?li (of_nat (?no + j)) = Some (''li'' @ to_string (j + 1))"
      by simp
    with miss show ?thesis by (simp add: names split: option.splits)
  qed
  from d c po li show ?thesis by blast
qed

text \<open>
  C6. When a stream has been read from a new reader and every pending literal refers to the
  signal table (fewer than \<open>2 ^ 32\<close> outputs and latches in all), the run ends with one
  finalization, which succeeds; the combinational outputs it adds to the network are the
  primary outputs of the output events, in stream order, followed by the register inputs
  of the latch events, in stream order, and the events themselves add none. Output
  \<open>k\<close> has position \<open>k\<close> and latch \<open>j\<close> has the position after the last output plus
  \<open>j\<close>; a position that had no name at the end of the stream gets the name po followed by
  \<open>k\<close> (from 0 on), respectively li followed by \<open>j + 1\<close> (from 1 on), and a named position
  keeps its name.
\<close>

theorem finalization_order_and_default_names:
  assumes run: "run_events ndebug (aig_ntk a True) es (new_reader g nm) = Some (Inr r)"
    and outs: "\<forall>lit \<in> set (declared_outputs es). lit_in_table (signals r) lit"
    and lats: "\<forall>l \<in> set (declared_latches es). lit_in_table (signals r) (fst l)"
    and bound: "length (declared_outputs es) + length (declared_latches es) < 2 ^ 32"
  shows "\<exists>g' nm'. read_aiger ndebug (aig_ntk a True) es g nm = Some (Inr (g', nm'))
            \<and> cos g' = cos g
                 @ map (\<lambda>lit. PO (aig_lit (signals r) lit)) (declared_outputs es)
                 @ map (\<lambda>l. RI (aig_lit (signals r) (fst l)) (reset_value (snd l)))
                     (declared_latches es)
            \<and> (\<forall>k < length (declared_outputs es).
                  output_names g' (of_nat k)
                    = Some (case output_names (ntk r) (of_nat k) of
                              Some n \<Rightarrow> n | None \<Rightarrow> ''po'' @ to_string k))
            \<and> (\<forall>j < length (declared_latches es).
                  output_names g' (of_nat (length (declared_outputs es) + j))
                    = Some (case output_names (ntk r) (of_nat (length (declared_outputs es) + j)) of
                              Some n \<Rightarrow> n | None \<Rightarrow> ''li'' @ to_string (j + 1)))"
proof -
  from run_events_pending [OF run]
  have o: "outputs r = map (\<lambda>lit. (lit, '''')) (declared_outputs es)"
    and l: "latches r = map (\<lambda>(nxt, reset). (nxt, reset_value reset, '''')) (declared_latches es)"
    by (simp_all add: new_reader_def)
  from run_events_aig_cos [OF run] have c: "cos (ntk r) = cos g"
    by (simp add: new_reader_def)
  have outs': "\<forall>out \<in> set (outputs r). lit_in_table (signals r) (fst out)"
    using outs by (simp add: o)
  have lats': "\<forall>l \<in> set (latches r). lit_in_table (signals r) (fst l)"
    using lats by (auto simp: l)
  have bound': "length (outputs r) + length (latches r) < 2 ^ 32"
    using bound by (simp add: o l)
  from destructor_aig_names [OF outs' lats' bound', of a]
  obtain g' nm' where "destructor (aig_ntk a True) r = Inr (g', nm')"
    and "cos g' = cos (ntk r)
                 @ map (\<lambda>out. PO (aig_lit (signals r) (fst out))) (outputs r)
                 @ map (\<lambda>l. RI (aig_lit (signals r) (fst l)) (fst (snd l))) (latches r)"
    and "\<forall>k < length (outputs r).
                  output_names g' (of_nat k)
                    = Some (case output_names (ntk r) (of_nat k) of
                              Some n \<Rightarrow> n | None \<Rightarrow> ''po'' @ to_string k)"
    and "\<forall>j < length (latches r).
                  output_names g' (of_nat (length (outputs r) + j))
                    = Some (case output_names (ntk r) (of_nat (length (outputs r) + j)) of
                              Some n \<Rightarrow> n | None \<Rightarrow> ''li'' @ to_string (j + 1))"
    by blast
  then have "read_aiger ndebug (aig_ntk a True) es g nm = Some (Inr (g', nm'))
            \<and> cos g' = cos g
                 @ map (\<lambda>lit. PO (aig_lit (signals r) lit)) (declared_outputs es)
                 @ map (\<lambda>l. RI (aig_lit (signals r) (fst l)) (reset_value (snd l)))
                     (declared_latches es)
            \<and> (\<forall>k < length (declared_outputs es).
                  output_names g' (of_nat k)
                    = Some (case output_names (ntk r) (of_nat k) of
                              Some n \<Rightarrow> n | None \<Rightarrow> ''po'' @ to_string k))
            \<and> (\<forall>j < length (declared_latches es).
                  output_names g' (of_nat (length (declared_outputs es) + j))
                    = Some (case output_names (ntk r) (of_nat (length (declared_outputs es) + j)) of
                              Some n \<Rightarrow> n | None \<Rightarrow> ''li'' @ to_string (j + 1)))"
    using run by (simp add: read_aiger_def o l c comp_def case_prod_beta)
  then show ?thesis by blast
qed

section \<open>Scenarios and further properties\<close>

lemmas reader_eval =
  read_aiger_def new_reader_def on_header_def pi_loop.simps ro_loop.simps pi_body_def ro_body_def
  on_and_def on_output_def on_latch_def reset_value_def resolve_def at_index_def destructor_def
  aig_ntk_sel aig_empty_def to_string.simps digit_char_def Let_def

text \<open>
  C1. The stream of a header with 2 inputs and 0 latches, the AND event (index 3, literals
  2 and 4) and the output event (index 0, literal 6), decoded into an empty network and
  finalized, in either build: the network then has the constant node, exactly two primary
  inputs (nodes 1 and 2) and one AND gate (node 3) whose operands are the two inputs, not
  complemented; its only output is the AND gate's signal, not complemented, and output
  position 0 has the default name po0.
\<close>

theorem and_gate_scenario:
  "read_aiger ndebug (aig_ntk True True) [Header 3 2 0 1 1, And_gate 3 2 4, Output 0 6]
     aig_empty None
   = Some (Inr (\<lparr>nodes = [Node_const, Node_pi, Node_pi, Node_and (1, False) (2, False)],
                  cos = [PO (3, False)],
                  signal_names = [(1, False) \<mapsto> ''pi0'', (2, False) \<mapsto> ''pi1''],
                  output_names = [0 \<mapsto> ''po0'']\<rparr>, None))"
proof -
  have "read_aiger ndebug (aig_ntk True True) [Header 3 2 0 1 1, And_gate 3 2 4, Output 0 6]
     aig_empty None
   = Some (Inr (\<lparr>nodes = [Node_const, Node_pi, Node_pi, Node_and (1, False) (2, False)],
                  cos = [PO (3, False)],
                  signal_names = [(Suc 0, False) \<mapsto> ''pi0'', (Suc (Suc 0), False) \<mapsto> ''pi1''],
                  output_names = [0 \<mapsto> ''po0'']\<rparr>, None))"
    by (simp add: reader_eval)
  then show ?thesis by (simp add: numeral_2_eq_2)
qed

text \<open>
  C2. For a header whose input and latch counts are below \<open>2 ^ 32\<close>, received by a reader
  with an empty signal table, \<^verbatim>\<open>on_header\<close> returns, and the table then has
  \<open>1 + numInputs + numLatches\<close> entries: entry 0 is the constant-false signal, the next
  \<open>numInputs\<close> entries are the signals of the primary inputs just created, in creation
  order, and the last \<open>numLatches\<close> entries are the signals of the register outputs just
  created, in creation order.
\<close>

theorem on_header_signal_table:
  assumes "unat n_inputs < 2 ^ 32" and "unat n_latches < 2 ^ 32" and "signals r = []"
  shows "\<exists>r'. on_header (aig_ntk a b) m n_inputs n_latches n_outputs n_ands r = Some r'
           \<and> length (signals r') = 1 + unat n_inputs + unat n_latches
           \<and> get_constant (aig_ntk a b) (ntk r) False = (0, False)
           \<and> signals r' = [(0, False)]
               @ map (\<lambda>k. (length (nodes (ntk r)) + k, False)) [0..<unat n_inputs]
               @ map (\<lambda>k. (length (nodes (ntk r)) + unat n_inputs + k, False)) [0..<unat n_latches]
           \<and> nodes (ntk r') = nodes (ntk r)
               @ replicate (unat n_inputs) Node_pi @ replicate (unat n_latches) Node_ro"
proof -
  from on_header_aig [OF assms(1,2), of a b m n_outputs n_ands r]
  obtain g' where "on_header (aig_ntk a b) m n_inputs n_latches n_outputs n_ands r
               = Some (r\<lparr>num_inputs := ucast n_inputs, ntk := g',
                        signals := signals r @ [(0, False)]
                          @ map (\<lambda>j. (length (nodes (ntk r)) + j, False)) [0..<unat n_inputs]
                          @ map (\<lambda>j. (length (nodes (ntk r)) + unat n_inputs + j, False))
                              [0..<unat n_latches]\<rparr>)"
    and "nodes g' = nodes (ntk r) @ replicate (unat n_inputs) Node_pi @ replicate (unat n_latches) Node_ro"
    by blast
  then show ?thesis using assms(3) by (simp add: aig_ntk_sel)
qed

text \<open>
  C2, at a header with 2 inputs and 1 latch.
\<close>

theorem on_header_signal_table_witness:
  "unat (2 :: u64) < 2 ^ 32 \<and> unat (1 :: u64) < 2 ^ 32
   \<and> signals (new_reader aig_empty None :: (aig, aig_signal) aiger_reader) = []
   \<and> (\<exists>r'. on_header (aig_ntk True True) 3 2 1 0 0 (new_reader aig_empty None) = Some r'
          \<and> length (signals r') = 4
          \<and> signals r' = [(0, False), (1, False), (2, False), (3, False)]
          \<and> nodes (ntk r') = [Node_const, Node_pi, Node_pi, Node_ro])"
proof -
  have h1: "unat (2 :: u64) < 2 ^ 32" and h2: "unat (1 :: u64) < 2 ^ 32" by simp_all
  have h3: "signals (new_reader aig_empty None :: (aig, aig_signal) aiger_reader) = []"
    by (simp add: new_reader_def)
  have rep: "replicate 2 Node_pi = [Node_pi, Node_pi]" by (simp add: numeral_2_eq_2)
  from on_header_signal_table [OF h1 h2 h3, of True True 3 0 0]
  have "\<exists>r'. on_header (aig_ntk True True) 3 2 1 0 0 (new_reader aig_empty None) = Some r'
          \<and> length (signals r') = 4
          \<and> signals r' = [(0, False), (1, False), (2, False), (3, False)]
          \<and> nodes (ntk r') = [Node_const, Node_pi, Node_pi, Node_ro]"
    by (auto simp: new_reader_def aig_empty_def upt_rec rep)
  with h1 h2 h3 show ?thesis by blast
qed

text \<open>
  The bound on the counts is needed: at \<open>2 ^ 32\<close> inputs the 32-bit counter of the first
  loop wraps around before it reaches the 64-bit bound, and \<^verbatim>\<open>on_header\<close> does not return.
\<close>

lemma header_big_diverges:
  "on_header N m 0x100000000 n_latches n_outputs n_ands r = None"
  by (rule on_header_diverges) simp

text \<open>
  C6, on a stream with one input, one latch, one output and one AND gate.
\<close>

theorem finalization_order_and_default_names_witness:
  "\<exists>g' nm'. read_aiger False (aig_ntk True True)
               [Header 3 1 1 1 1, Latch 0 6 ONE, Output 0 7, And_gate 3 2 4] aig_empty None
             = Some (Inr (g', nm'))
     \<and> cos g' = [PO (3, True), RI (3, False) 1]
     \<and> output_names g' 0 = Some ''po0''
     \<and> output_names g' 1 = Some ''li1''"
proof -
  let ?es = "[Header 3 1 1 1 1, Latch 0 6 ONE, Output 0 7, And_gate 3 2 4]"
  obtain r where run: "run_events False (aig_ntk True True) ?es (new_reader aig_empty None) = Some (Inr r)"
    and sig: "signals r = [(0, False), (1, False), (2, False), (3, False)]"
    and no_names: "output_names (ntk r) = Map.empty"
    by (simp add: reader_eval)
  have outs: "\<forall>lit \<in> set (declared_outputs ?es). lit_in_table (signals r) lit"
    by (simp add: sig lit_in_table_def)
  have lats: "\<forall>l \<in> set (declared_latches ?es). lit_in_table (signals r) (fst l)"
    by (simp add: sig lit_in_table_def)
  have bound: "length (declared_outputs ?es) + length (declared_latches ?es) < 2 ^ 32"
    by simp
  from finalization_order_and_default_names [OF run outs lats bound]
  show ?thesis
    by (simp add: sig no_names aig_lit_def reset_value_def to_string.simps digit_char_def
        aig_empty_def)
qed

text \<open>
  C9. \<^verbatim>\<open>on_latch\<close> appends the record of the next-state literal, the code of the reset value
  (0, 1, or -1 for a nondeterministic reset) and the empty name to the pending latches and
  changes nothing else: the network and the signal table are as before. When a stream has
  been read, the network has the combinational outputs it had before the stream, so no
  register input exists yet; finalization then creates, after the primary outputs, one
  register input per latch event, in stream order, bound to the signal of the next-state
  literal with the recorded reset value.
\<close>

theorem on_latch_defers_register_input:
  fixes r :: "('g, 's) aiger_reader" and r0 :: "(aig, aig_signal) aiger_reader"
  shows "on_latch index nxt reset r = r\<lparr>latches := latches r @ [(nxt, reset_value reset, '''')]\<rparr>
     \<and> ntk (on_latch index nxt reset r) = ntk r
     \<and> signals (on_latch index nxt reset r) = signals r
     \<and> reset_value ZERO = 0 \<and> reset_value ONE = 1 \<and> reset_value NONDETERMINISTIC = - 1
     \<and> (run_events ndebug (aig_ntk a b) es (new_reader g nm) = Some (Inr r0)
          \<and> (\<forall>lit \<in> set (declared_outputs es). lit_in_table (signals r0) lit)
          \<and> (\<forall>l \<in> set (declared_latches es). lit_in_table (signals r0) (fst l))
        \<longrightarrow> cos (ntk r0) = cos g
          \<and> (\<exists>g' nm'. read_aiger ndebug (aig_ntk a b) es g nm = Some (Inr (g', nm'))
                \<and> cos g' = cos g
                     @ map (\<lambda>lit. PO (aig_lit (signals r0) lit)) (declared_outputs es)
                     @ map (\<lambda>l. RI (aig_lit (signals r0) (fst l)) (reset_value (snd l)))
                         (declared_latches es)))"
proof -
  have frame: "on_latch index nxt reset r = r\<lparr>latches := latches r @ [(nxt, reset_value reset, '''')]\<rparr>"
    by (simp add: on_latch_def Let_def)
  have codes: "reset_value ZERO = 0" "reset_value ONE = 1" "reset_value NONDETERMINISTIC = - 1"
    by (simp_all add: reset_value_def)
  have final: "cos (ntk r0) = cos g
          \<and> (\<exists>g' nm'. read_aiger ndebug (aig_ntk a b) es g nm = Some (Inr (g', nm'))
                \<and> cos g' = cos g
                     @ map (\<lambda>lit. PO (aig_lit (signals r0) lit)) (declared_outputs es)
                     @ map (\<lambda>l. RI (aig_lit (signals r0) (fst l)) (reset_value (snd l)))
                         (declared_latches es))"
    if run: "run_events ndebug (aig_ntk a b) es (new_reader g nm) = Some (Inr r0)"
      and outs: "\<forall>lit \<in> set (declared_outputs es). lit_in_table (signals r0) lit"
      and lats: "\<forall>l \<in> set (declared_latches es). lit_in_table (signals r0) (fst l)"
  proof -
    from run_events_pending [OF run]
    have o: "outputs r0 = map (\<lambda>lit. (lit, '''')) (declared_outputs es)"
      and l: "latches r0 = map (\<lambda>(nxt, reset). (nxt, reset_value reset, '''')) (declared_latches es)"
      by (simp_all add: new_reader_def)
    from run_events_aig_cos [OF run] have c: "cos (ntk r0) = cos g"
      by (simp add: new_reader_def)
    have outs': "\<forall>out \<in> set (outputs r0). lit_in_table (signals r0) (fst out)"
      using outs by (simp add: o)
    have lats': "\<forall>l \<in> set (latches r0). lit_in_table (signals r0) (fst l)"
      using lats by (auto simp: l)
    from destructor_aig [OF outs' lats', of a b]
    obtain g' nm' where "destructor (aig_ntk a b) r0 = Inr (g', nm')"
      and "cos g' = cos (ntk r0)
                 @ map (\<lambda>out. PO (aig_lit (signals r0) (fst out))) (outputs r0)
                 @ map (\<lambda>l. RI (aig_lit (signals r0) (fst l)) (fst (snd l))) (latches r0)"
      by blast
    then have "read_aiger ndebug (aig_ntk a b) es g nm = Some (Inr (g', nm'))
                \<and> cos g' = cos g
                     @ map (\<lambda>lit. PO (aig_lit (signals r0) lit)) (declared_outputs es)
                     @ map (\<lambda>l. RI (aig_lit (signals r0) (fst l)) (reset_value (snd l)))
                         (declared_latches es)"
      using run by (simp add: read_aiger_def o l c comp_def case_prod_beta)
    with c show ?thesis by blast
  qed
  from frame codes final show ?thesis by simp
qed

text \<open>
  C9, on the stream of one latch event (index 0, next-state literal 3, reset ONE).
\<close>

theorem on_latch_defers_register_input_witness:
  "on_latch 0 3 ONE (new_reader aig_empty None)
     = (new_reader aig_empty None :: (aig, aig_signal) aiger_reader)\<lparr>latches := [(3, 1, '''')]\<rparr>
   \<and> (\<exists>g' nm'. read_aiger False (aig_ntk True True) [Header 2 1 1 0 0, Latch 0 3 ONE] aig_empty None
                  = Some (Inr (g', nm'))
          \<and> cos g' = [RI (1, True) 1])"
proof -
  let ?es = "[Header 2 1 1 0 0, Latch 0 3 ONE]"
  obtain r0 where run: "run_events False (aig_ntk True True) ?es (new_reader aig_empty None) = Some (Inr r0)"
    and sig: "signals r0 = [(0, False), (1, False), (2, False)]"
    by (simp add: reader_eval)
  have outs: "\<forall>lit \<in> set (declared_outputs ?es). lit_in_table (signals r0) lit"
    by simp
  have lats: "\<forall>l \<in> set (declared_latches ?es). lit_in_table (signals r0) (fst l)"
    by (simp add: sig lit_in_table_def)
  from on_latch_defers_register_input
    [of 0 3 ONE "new_reader aig_empty None :: (aig, aig_signal) aiger_reader"
       False True True ?es aig_empty None r0] run outs lats
  show ?thesis
    by (simp add: sig aig_lit_def reset_value_def aig_empty_def new_reader_def)
qed

text \<open>
  C10. When a stream has been read by a reader with a NameMap, every pending latch has the
  empty name, and finalization inserts into the NameMap, after one insert of the empty
  name per output, one insert per latch event, in stream order, of the name \<open>_next\<close> for
  the signal of the latch's next-state literal.
\<close>

theorem latch_next_state_names:
  assumes run: "run_events ndebug (aig_ntk a b) es (new_reader g (Some nm)) = Some (Inr r)"
    and outs: "\<forall>lit \<in> set (declared_outputs es). lit_in_table (signals r) lit"
    and lats: "\<forall>l \<in> set (declared_latches es). lit_in_table (signals r) (fst l)"
  shows "(\<forall>l \<in> set (latches r). snd (snd l) = '''')
     \<and> (\<exists>g'. read_aiger ndebug (aig_ntk a b) es g (Some nm)
               = Some (Inr (g', Some (NameMap_inserts
                    (map (\<lambda>lit. (aig_lit (signals r) lit, '''')) (declared_outputs es)
                     @ map (\<lambda>l. (aig_lit (signals r) (fst l), ''_next'')) (declared_latches es))
                    nm))))"
proof -
  from run_events_pending [OF run]
  have o: "outputs r = map (\<lambda>lit. (lit, '''')) (declared_outputs es)"
    and l: "latches r = map (\<lambda>(nxt, reset). (nxt, reset_value reset, '''')) (declared_latches es)"
    and p: "names_ptr r = Some nm"
    by (simp_all add: new_reader_def)
  have empty: "\<forall>l \<in> set (latches r). snd (snd l) = ''''"
    by (auto simp: l)
  have outs': "\<forall>out \<in> set (outputs r). lit_in_table (signals r) (fst out)"
    using outs by (simp add: o)
  have lats': "\<forall>l \<in> set (latches r). lit_in_table (signals r) (fst l)"
    using lats by (auto simp: l)
  from destructor_aig [OF outs' lats', of a b]
  obtain g' where "destructor (aig_ntk a b) r
               = Inr (g', map_option (NameMap_inserts
                            (map (\<lambda>out. (aig_lit (signals r) (fst out), snd out)) (outputs r)
                             @ map (\<lambda>l. (aig_lit (signals r) (fst l), snd (snd l) @ ''_next''))
                                 (latches r))) (names_ptr r))"
    by blast
  then have "read_aiger ndebug (aig_ntk a b) es g (Some nm)
               = Some (Inr (g', Some (NameMap_inserts
                    (map (\<lambda>lit. (aig_lit (signals r) lit, '''')) (declared_outputs es)
                     @ map (\<lambda>l. (aig_lit (signals r) (fst l), ''_next'')) (declared_latches es))
                    nm)))"
    using run by (simp add: read_aiger_def o l p comp_def case_prod_beta)
  with empty show ?thesis by blast
qed

text \<open>
  C10, on a stream with two latches: both next-state signals get the name \<open>_next\<close>.
\<close>

theorem latch_next_state_names_witness:
  "\<exists>g' nm'. read_aiger False (aig_ntk True True)
               [Header 2 0 2 0 0, Latch 0 4 ZERO, Latch 1 3 ONE] aig_empty (Some NameMap_empty)
             = Some (Inr (g', Some nm'))
     \<and> names nm' (2, False) = Some [''_next'']
     \<and> names nm' (1, True) = Some [''_next'']
     \<and> rev_names nm' ''_next'' = Some (2, False)"
proof -
  let ?es = "[Header 2 0 2 0 0, Latch 0 4 ZERO, Latch 1 3 ONE]"
  obtain r where run: "run_events False (aig_ntk True True) ?es
                         (new_reader aig_empty (Some NameMap_empty)) = Some (Inr r)"
    and sig: "signals r = [(0, False), (1, False), (2, False)]"
    by (simp add: reader_eval)
  have outs: "\<forall>lit \<in> set (declared_outputs ?es). lit_in_table (signals r) lit"
    by simp
  have lats: "\<forall>l \<in> set (declared_latches ?es). lit_in_table (signals r) (fst l)"
    by (simp add: sig lit_in_table_def)
  from latch_next_state_names [OF run outs lats]
  show ?thesis
    by (auto simp: sig aig_lit_def names_insert rev_names_insert NameMap_empty_def)
qed

text \<open>
  C3, as the specification states it, fails: in a build with \<^verbatim>\<open>NDEBUG\<close> an AND event with
  index 7, received when the table has 3 entries, does not fail; the gate is appended at
  position 3. In a build with assertions the run stops at the failed assertion.
\<close>

theorem and_index_malformed_counterexample:
  "map_option (map_sum id signals)
     (run_events True (aig_ntk True True) [Header 7 2 0 0 1, And_gate 7 2 4]
        (new_reader aig_empty None))
   = Some (Inr [(0, False), (1, False), (2, False), (3, False)])
   \<and> run_events False (aig_ntk True True) [Header 7 2 0 0 1, And_gate 7 2 4]
        (new_reader aig_empty None)
     = Some (Inl AssertionFailed)"
  by (simp add: reader_eval)

text \<open>
  C3, amended. In a build that keeps assertions, an AND event whose index differs from the
  length of the signal table makes the assertion of \<^verbatim>\<open>on_and\<close> fail, and an AND event
  that \<^verbatim>\<open>on_and\<close> accepts has the index equal to the length of the table to which the
  new signal is appended. In a build with \<^verbatim>\<open>NDEBUG\<close> the index has no effect. In
  neither build does \<^verbatim>\<open>on_and\<close> end with the error MalformedStream.
\<close>

theorem and_index_assertion:
  "(\<not> ndebug \<and> length (signals r) \<noteq> unat index
      \<longrightarrow> on_and ndebug N index left_lit right_lit r = Inl AssertionFailed)
   \<and> (on_and ndebug N index left_lit right_lit r = Inr r'
      \<longrightarrow> (ndebug \<or> unat index = length (signals r))
          \<and> (\<exists>s. signals r' = signals r @ [s]))
   \<and> on_and True N index left_lit right_lit r = on_and True N index' left_lit right_lit r
   \<and> on_and ndebug N index left_lit right_lit r \<noteq> Inl MalformedStream"
  by (auto simp: on_and_def resolve_cases Let_def split: sum.splits prod.splits if_splits)

text \<open>
  C3, amended, at a table of 3 entries: index 7 fails the assertion, index 3 appends.
\<close>

theorem and_index_assertion_witness:
  "on_and False (aig_ntk True True) 7 2 4
     (new_reader aig_empty None\<lparr>signals := [(0, False), (1, False), (2, False)]\<rparr>)
   = Inl AssertionFailed
   \<and> (\<exists>s. signals (projr (on_and False (aig_ntk True True) 3 2 4
              (new_reader aig_empty None\<lparr>signals := [(0, False), (1, False), (2, False)]\<rparr>)))
           = [(0, False), (1, False), (2, False)] @ [s])"
proof -
  let ?r = "new_reader aig_empty None\<lparr>signals := [(0, False), (1, False), (2, False)]\<rparr>
              :: (aig, aig_signal) aiger_reader"
  let ?r' = "projr (on_and False (aig_ntk True True) 3 2 4 ?r)"
  have ok: "on_and False (aig_ntk True True) 3 2 4 ?r = Inr ?r'"
    by (simp add: reader_eval)
  have bad: "\<not> False \<and> length (signals ?r) \<noteq> unat (7 :: u32)"
    by (simp add: new_reader_def)
  from and_index_assertion [of False ?r 7 "aig_ntk True True" 2 4 ?r' 7] bad
  have 1: "on_and False (aig_ntk True True) 7 2 4 ?r = Inl AssertionFailed" by blast
  from and_index_assertion [of False ?r 3 "aig_ntk True True" 2 4 ?r' 3] ok
  have 2: "\<exists>s. signals ?r' = signals ?r @ [s]" by blast
  from 1 2 show ?thesis by (simp add: new_reader_def)
qed

text \<open>
  C5, as the specification states it, fails: an AND event and an output event with the
  literal 100, on a table of 3 entries, end in a read past the table, not in the error
  MalformedStream.
\<close>

theorem literal_range_malformed_counterexample:
  "run_events False (aig_ntk True True) [Header 3 2 0 1 1, And_gate 3 2 100]
     (new_reader aig_empty None)
   = Some (Inl OutOfBoundsRead)
   \<and> run_events True (aig_ntk True True) [Header 3 2 0 1 1, And_gate 3 2 100]
     (new_reader aig_empty None)
   = Some (Inl OutOfBoundsRead)
   \<and> read_aiger False (aig_ntk True True) [Header 2 2 0 1 0, Output 0 100] aig_empty None
   = Some (Inl OutOfBoundsRead)"
  by (simp add: reader_eval)

text \<open>
  C5, amended. The reader makes no range check. An AND event that passes the index
  assertion (or is read in a build with \<^verbatim>\<open>NDEBUG\<close>) and carries a literal whose node index
  is outside the signal table reads past the table, and so does the destructor when a
  pending output or latch carries such a literal. Neither \<^verbatim>\<open>on_and\<close>, nor \<^verbatim>\<open>on_output\<close>,
  nor the destructor ends with the error MalformedStream.
\<close>

theorem literal_range_unchecked:
  "((ndebug \<or> length (signals r) = unat index)
      \<and> (\<not> lit_in_table (signals r) left_lit \<or> \<not> lit_in_table (signals r) right_lit)
     \<longrightarrow> on_and ndebug N index left_lit right_lit r = Inl OutOfBoundsRead)
   \<and> ((\<exists>out \<in> set (outputs r). \<not> lit_in_table (signals r) (fst out))
       \<or> (\<exists>l \<in> set (latches r). \<not> lit_in_table (signals r) (fst l))
     \<longrightarrow> destructor N r = Inl OutOfBoundsRead)
   \<and> on_and ndebug N index left_lit right_lit r \<noteq> Inl MalformedStream
   \<and> on_output ndebug index lit r \<noteq> Inl MalformedStream
   \<and> destructor N r \<noteq> Inl MalformedStream"
proof -
  have d: "destructor N r \<noteq> Inl MalformedStream"
  proof (cases "(\<exists>out \<in> set (outputs r). \<not> lit_in_table (signals r) (fst out))
           \<or> (\<exists>l \<in> set (latches r). \<not> lit_in_table (signals r) (fst l))")
    case True
    from destructor_out_of_table [OF this, of N] show ?thesis by simp
  next
    case False
    then have o: "\<forall>out \<in> set (outputs r). lit_in_table (signals r) (fst out)"
      and l: "\<forall>l \<in> set (latches r). lit_in_table (signals r) (fst l)" by auto
    from po_loop_in_table [OF o, where N = N and g = "ntk r" and nm = "names_ptr r" and idx = 0]
    obtain g1 nm1 idx where po: "po_loop N (signals r) (outputs r) (ntk r, names_ptr r, 0)
                                  = Inr (g1, nm1, idx)"
      by (metis prod_cases3)
    from ri_loop_in_table [OF l, where N = N and g = g1 and nm = nm1 and idx = idx and lidx = 1]
    obtain st where "ri_loop N (signals r) (latches r) (g1, nm1, idx, 1) = Inr st" by blast
    with po show ?thesis by (simp add: destructor_def split: prod.splits)
  qed
  from d on_and_out_of_table [of ndebug r index left_lit right_lit N] destructor_out_of_table [of r N]
  show ?thesis
    by (auto simp: on_and_def on_output_def resolve_cases Let_def split: sum.splits prod.splits if_splits)
qed

text \<open>
  C5, amended, at the literal 100 on a table of 3 entries.
\<close>

theorem literal_range_unchecked_witness:
  "on_and True (aig_ntk True True) 3 2 100
     (new_reader aig_empty None\<lparr>signals := [(0, False), (1, False), (2, False)]\<rparr>)
   = Inl OutOfBoundsRead
   \<and> destructor (aig_ntk True True)
       (new_reader aig_empty None\<lparr>signals := [(0, False), (1, False), (2, False)],
                                   outputs := [(100, '''')]\<rparr>)
     = Inl OutOfBoundsRead"
proof -
  let ?r = "new_reader aig_empty None\<lparr>signals := [(0, False), (1, False), (2, False)]\<rparr>
              :: (aig, aig_signal) aiger_reader"
  let ?r2 = "new_reader aig_empty None\<lparr>signals := [(0, False), (1, False), (2, False)],
                                        outputs := [(100, '''')]\<rparr>
              :: (aig, aig_signal) aiger_reader"
  have h1: "(True \<or> length (signals ?r) = unat (3 :: u32))
      \<and> (\<not> lit_in_table (signals ?r) 2 \<or> \<not> lit_in_table (signals ?r) 100)"
    by (simp add: new_reader_def lit_in_table_def)
  have h2: "(\<exists>out \<in> set (outputs ?r2). \<not> lit_in_table (signals ?r2) (fst out))
       \<or> (\<exists>l \<in> set (latches ?r2). \<not> lit_in_table (signals ?r2) (fst l))"
    by (simp add: new_reader_def lit_in_table_def)
  from literal_range_unchecked [of True ?r 3 2 100 "aig_ntk True True"] h1
  have 1: "on_and True (aig_ntk True True) 3 2 100 ?r = Inl OutOfBoundsRead" by blast
  from literal_range_unchecked [of True ?r2 3 2 100 "aig_ntk True True"] h2
  have 2: "destructor (aig_ntk True True) ?r2 = Inl OutOfBoundsRead" by blast
  from 1 2 show ?thesis by simp
qed

end
